theory Spec2Isabelle
  imports Complex_Main
begin

section \<open>Advective reconstruction: data model\<close>

text \<open>
  The development follows \<^verbatim>\<open>rec_advective.hpp\<close>. Values of type \<^verbatim>\<open>double\<close> are modelled
  by \<^typ>\<open>real\<close>: round-off, infinities and NaN are outside the model, and the one
  place where IEEE division by zero decides a branch is written out. Values of type
  \<^verbatim>\<open>unsigned\<close> are natural numbers, reduced modulo \<open>2 ^ 32\<close> where the source
  computes with them. Reads and writes outside a vector, and a read through a null
  pointer, have no defined result in C++; the model returns the error
  \<open>UndefinedBehaviour\<close> there. \<open>NonFinite\<close> marks a division by zero whose IEEE result
  is an infinity or NaN, and \<open>LibraryError\<close> an argument that BLAS rejects.
\<close>

datatype error =
    RuntimeError string
  | LogicError string
  | OutOfRange
  | UndefinedBehaviour string
  | LibraryError string
  | NonFinite

definition u32 :: "nat \<Rightarrow> nat" where
  "u32 n = n mod 4294967296"

text \<open>
  \<^verbatim>\<open>hedge::INVALID_ELEMENT\<close> is declared in a header outside the repository; it is the
  largest \<^verbatim>\<open>unsigned\<close> value there.
\<close>

definition INVALID_ELEMENT :: nat where
  "INVALID_ELEMENT = 4294967295"

definition max_faces :: nat where
  "max_faces = 4"

subsection \<open>Results and bounded loops\<close>

definition bindE :: "error + 'a \<Rightarrow> ('a \<Rightarrow> error + 'b) \<Rightarrow> error + 'b" where
  "bindE m f = (case m of Inl e \<Rightarrow> Inl e | Inr x \<Rightarrow> f x)"

text \<open>A \<^verbatim>\<open>for\<close> loop over a fixed index range whose body may throw.\<close>

fun foldE :: "('a \<Rightarrow> 's \<Rightarrow> error + 's) \<Rightarrow> 'a list \<Rightarrow> 's \<Rightarrow> error + 's" where
  "foldE f [] s = Inr s"
| "foldE f (x # xs) s = (case f x s of Inl e \<Rightarrow> Inl e | Inr s' \<Rightarrow> foldE f xs s')"

fun mapE :: "('a \<Rightarrow> error + 'b) \<Rightarrow> 'a list \<Rightarrow> error + 'b list" where
  "mapE f [] = Inr []"
| "mapE f (x # xs) =
     (case f x of Inl e \<Rightarrow> Inl e
      | Inr y \<Rightarrow> (case mapE f xs of Inl e \<Rightarrow> Inl e | Inr ys \<Rightarrow> Inr (y # ys)))"

text \<open>Unchecked element access \<^verbatim>\<open>v[i]\<close> and the update \<^verbatim>\<open>v[i] = x\<close>.\<close>

definition vec_at :: "'a list \<Rightarrow> nat \<Rightarrow> error + 'a" where
  "vec_at xs i = (if i < length xs then Inr (xs ! i)
              else Inl (UndefinedBehaviour ''index outside the vector''))"

definition vec_put :: "'a list \<Rightarrow> nat \<Rightarrow> 'a \<Rightarrow> error + 'a list" where
  "vec_put xs i x = (if i < length xs then Inr (xs[i := x])
                 else Inl (UndefinedBehaviour ''index outside the vector''))"

text \<open>\<^verbatim>\<open>subrange(v, a, b)\<close>, read and assigned.\<close>

definition subrange :: "'a list \<Rightarrow> nat \<Rightarrow> nat \<Rightarrow> error + 'a list" where
  "subrange xs a b = (if a \<le> b \<and> b \<le> length xs then Inr (take (b - a) (drop a xs))
                      else Inl (UndefinedBehaviour ''range outside the vector''))"

definition set_subrange :: "'a list \<Rightarrow> nat \<Rightarrow> nat \<Rightarrow> 'a list \<Rightarrow> error + 'a list" where
  "set_subrange xs a b ys =
     (if a \<le> b \<and> b \<le> length xs \<and> length ys = b - a
      then Inr (take a xs @ ys @ drop b xs)
      else Inl (UndefinedBehaviour ''range outside the vector''))"

definition inner_prod :: "real list \<Rightarrow> real list \<Rightarrow> real" where
  "inner_prod u v = sum_list (map2 (*) u v)"

subsection \<open>Mesh and face data supplied by the collaborators\<close>

text \<open>
  The headers \<^verbatim>\<open>meshdata.hpp\<close> and \<^verbatim>\<open>hedge/face_operators.hpp\<close> are outside the
  repository's files; the records hold the members the reconstructor reads.
\<close>

record face_info =
  m_neighbor :: nat

record element_info =
  m_id :: nat
  m_start :: nat
  m_end :: nat
  m_jacobian :: real
  m_inverse_map :: "real list list"
  m_faces :: "face_info list"

record mesh_data =
  m_dimensions :: nat
  mesh_element_info :: "element_info list"
  mesh_nodes :: "real list list"

record flux_face =
  element_id :: nat
  face_id :: nat
  face_index_list_number :: nat
  normal :: "real list"
  face_jacobian :: real

record face_pair =
  loc :: flux_face
  opp :: flux_face

record face_group =
  face_pairs :: "face_pair list"
  index_lists :: "nat list list"

text \<open>
  \<^verbatim>\<open>fg.index_list(n)\<close> yields an iterator; a list number outside the group gives an
  iterator that cannot be dereferenced, here the empty list.
\<close>

definition index_list :: "face_group \<Rightarrow> nat \<Rightarrow> nat list" where
  "index_list fg n = (if n < length (index_lists fg) then index_lists fg ! n else [])"

record py_matrix =
  size1 :: nat
  size2 :: nat
  entries :: "real list"

definition mat_at :: "py_matrix \<Rightarrow> nat \<Rightarrow> nat \<Rightarrow> error + real" where
  "mat_at M i j =
     (if i < size1 M \<and> j < size2 M then vec_at (entries M) (i * size2 M + j)
      else Inl (UndefinedBehaviour ''matrix index outside the matrix''))"

subsection \<open>Member types of the reconstructor\<close>

record active_element =
  m_element_info :: element_info
  m_connections :: "nat list"
  m_start_index :: nat
  m_min_life :: nat

text \<open>
  The shape function object is kept as the function its call operator computes; the
  normaliser it uses is set by a constructor outside the repository's files.
\<close>

record advected_particle =
  m_shape_function :: "real list \<Rightarrow> real"
  m_elements :: "active_element list"

fun find_from :: "nat \<Rightarrow> nat \<Rightarrow> active_element list \<Rightarrow> nat option" where
  "find_from en k [] = None"
| "find_from en k (el # els) =
     (if m_id (m_element_info el) = en then Some k else find_from en (Suc k) els)"

text \<open>\<^verbatim>\<open>find_element\<close> returns a pointer into \<^verbatim>\<open>m_elements\<close>: here the position, or \<open>None\<close> for the null pointer.\<close>

definition find_element :: "advected_particle \<Rightarrow> nat \<Rightarrow> nat option" where
  "find_element p en =
     (if en = INVALID_ELEMENT then None else find_from en 0 (m_elements p))"

record advective_state =
  active_elements :: nat
  freelist :: "nat list"
  advected_particles :: "advected_particle list"
  rho :: "real list"

record particle_state =
  charges :: "real list"
  vdim :: nat

record face_pair_locator =
  m_face_group :: face_group
  m_face_pair :: face_pair

record reconstructor =
  m_mesh_data :: mesh_data
  m_faces_per_element :: nat
  m_dofs_per_element :: nat
  m_integral_weights :: "real list"
  m_inverse_mass_matrix :: py_matrix
  m_face_mass_matrix :: py_matrix
  m_filter_matrix :: py_matrix
  m_local_diff_matrices :: "py_matrix list"
  m_el_face_to_face_pair_locator :: "nat \<times> nat \<Rightarrow> face_pair_locator option"
  m_activation_threshold :: real
  m_kill_threshold :: real
  m_upwind_alpha :: real

section \<open>State vector administration\<close>

text \<open>
  \<^verbatim>\<open>advective_state::resize\<close> keeps the common prefix. The source leaves the new
  region uninitialised; the model fills it with \<open>0\<close>, and every user of a fresh slab
  overwrites it before reading.
\<close>

definition resize :: "advective_state \<Rightarrow> nat \<Rightarrow> advective_state" where
  "resize as new_size =
     (let old_size = length (rho as);
          copy_size = min new_size old_size
      in as\<lparr>rho := take copy_size (rho as) @ replicate (new_size - copy_size) 0\<rparr>)"

text \<open>
  The event counters ticked by the two functions and the notifications sent to the
  optional \<^verbatim>\<open>number_shift_listener\<close> do not feed back into the state and are left
  out.
\<close>

definition allocate_element :: "reconstructor \<Rightarrow> advective_state \<Rightarrow> error + (advective_state \<times> nat)" where
  "allocate_element rc as =
     (if m_dofs_per_element rc = 0
      then Inl (RuntimeError ''tried to allocate element on uninitialized advection reconstructor'')
      else if freelist as \<noteq> []
      then Inr (as\<lparr>active_elements := u32 (active_elements as + 1),
                    freelist := butlast (freelist as)\<rparr>,
                u32 (last (freelist as) * m_dofs_per_element rc))
      else
        (let avl_space = u32 (length (rho as) div m_dofs_per_element rc);
             as1 = (if active_elements as = avl_space
                    then resize as (u32 (2 * length (rho as))) else as)
         in Inr (as1\<lparr>active_elements := u32 (active_elements as1 + 1)\<rparr>,
                 u32 (active_elements as1 * m_dofs_per_element rc))))"

definition deallocate_element :: "reconstructor \<Rightarrow> advective_state \<Rightarrow> nat \<Rightarrow> error + advective_state" where
  "deallocate_element rc as start_index =
     (if m_dofs_per_element rc = 0
      then Inl (UndefinedBehaviour ''remainder of a division by zero'')
      else if start_index mod m_dofs_per_element rc \<noteq> 0
      then Inl (RuntimeError ''invalid advective element deallocation'')
      else
        (let el_index = start_index div m_dofs_per_element rc;
             as1 = as\<lparr>active_elements := u32 (active_elements as + 4294967295)\<rparr>
         in Inr (if el_index \<noteq> active_elements as1 + length (freelist as1)
                 then as1\<lparr>freelist := freelist as1 @ [el_index]\<rparr>
                 else as1)))"

subsection \<open>Flux coefficients of one face\<close>

definition inflow_of :: "real \<Rightarrow> bool" where
  "inflow_of n_dot_v = (n_dot_v \<le> 0)"

definition int_coeff_of :: "real \<Rightarrow> real \<Rightarrow> real \<Rightarrow> real" where
  "int_coeff_of face_jac n_dot_v upwind_alpha =
     face_jac * (- n_dot_v) *
       (upwind_alpha * (1 - (if inflow_of n_dot_v then 0 else 1))
        + (1 - upwind_alpha) * 0.5)"

definition ext_coeff_of :: "real \<Rightarrow> real \<Rightarrow> real \<Rightarrow> real" where
  "ext_coeff_of face_jac n_dot_v upwind_alpha =
     face_jac * (- n_dot_v) *
       (upwind_alpha * - (if inflow_of n_dot_v then 1 else 0)
        + (1 - upwind_alpha) * - 0.5)"

section \<open>Upkeep: retiring elements\<close>

definition element_integral :: "reconstructor \<Rightarrow> real \<Rightarrow> real list \<Rightarrow> real" where
  "element_integral rc jacobian ve = jacobian * inner_prod (m_integral_weights rc) ve"

definition element_l1 :: "reconstructor \<Rightarrow> real \<Rightarrow> real list \<Rightarrow> real" where
  "element_l1 rc jacobian ve = jacobian * inner_prod (m_integral_weights rc) (map abs ve)"

text \<open>
  The test \<^verbatim>\<open>element_charge / particle_charge < m_kill_threshold\<close> on doubles. The
  divisor is an absolute value; when it is zero the quotient is \<open>-\<infinity>\<close> for a negative
  dividend (below every threshold), and \<open>+\<infinity>\<close> or NaN otherwise (below none).
\<close>

definition charge_ratio_below :: "real \<Rightarrow> real \<Rightarrow> real \<Rightarrow> bool" where
  "charge_ratio_below element_charge particle_charge threshold =
     (if particle_charge = 0 then element_charge < 0
      else element_charge / particle_charge < threshold)"

text \<open>The inner loop over \<^verbatim>\<open>cfn\<close>: every slot of the connected element that names \<open>en\<close> is reset.\<close>

definition sever_slots :: "nat \<Rightarrow> nat \<Rightarrow> nat list \<Rightarrow> error + nat list" where
  "sever_slots faces en conns =
     foldE (\<lambda>cfn c. bindE (vec_at c cfn) (\<lambda>v.
              if v = en then vec_put c cfn INVALID_ELEMENT else Inr c))
       [0..<faces] conns"

text \<open>One pass of the loop over \<^verbatim>\<open>fn\<close> for the element at position \<open>i_el\<close> with number \<open>en\<close>.\<close>

definition kill_connection :: "reconstructor \<Rightarrow> nat \<Rightarrow> nat \<Rightarrow> nat \<Rightarrow> advected_particle
    \<Rightarrow> error + advected_particle" where
  "kill_connection rc i_el en fn p =
     bindE (vec_at (m_connections (m_elements p ! i_el)) fn) (\<lambda>connected_en.
       if connected_en \<noteq> INVALID_ELEMENT
       then (case find_element p connected_en of
               None \<Rightarrow> Inl (UndefinedBehaviour ''null pointer dereferenced'')
             | Some k \<Rightarrow>
                 bindE (sever_slots (m_faces_per_element rc) en (m_connections (m_elements p ! k)))
                   (\<lambda>c. Inr (p\<lparr>m_elements :=
                                 (m_elements p)[k := (m_elements p ! k)\<lparr>m_connections := c\<rparr>]\<rparr>)))
       else Inr p)"

definition retire_element :: "reconstructor \<Rightarrow> nat \<Rightarrow> nat \<Rightarrow> advective_state
    \<Rightarrow> error + advective_state" where
  "retire_element rc pn i_el as =
     (let p = advected_particles as ! pn;
          el = m_elements p ! i_el;
          en = m_id (m_element_info el)
      in bindE (foldE (kill_connection rc i_el en) [0..<m_faces_per_element rc] p) (\<lambda>p1.
         bindE (deallocate_element rc as (m_start_index (m_elements p1 ! i_el))) (\<lambda>as1.
           Inr (as1\<lparr>advected_particles := (advected_particles as1)
                  [pn := p1\<lparr>m_elements := take i_el (m_elements p1)
                                            @ drop (Suc i_el) (m_elements p1)\<rparr>]\<rparr>))))"

text \<open>
  The body of the loop over \<^verbatim>\<open>i_el\<close>; the flag tells whether the element was
  retired.
\<close>

definition upkeep_element :: "reconstructor \<Rightarrow> real \<Rightarrow> nat \<Rightarrow> nat \<Rightarrow> advective_state
    \<Rightarrow> error + (advective_state \<times> bool)" where
  "upkeep_element rc particle_charge pn i_el as =
     (let p = advected_particles as ! pn;
          el = m_elements p ! i_el;
          el1 = (if m_min_life el \<noteq> 0 then el\<lparr>m_min_life := m_min_life el - 1\<rparr> else el);
          as1 = as\<lparr>advected_particles := (advected_particles as)
                  [pn := p\<lparr>m_elements := (m_elements p)[i_el := el1]\<rparr>]\<rparr>
      in bindE (subrange (rho as) (m_start_index el)
                  (u32 (m_start_index el + m_dofs_per_element rc))) (\<lambda>slab.
           let element_charge = element_l1 rc (m_jacobian (m_element_info el)) slab
           in if m_min_life el1 = 0
                 \<and> charge_ratio_below element_charge particle_charge (m_kill_threshold rc)
              then bindE (retire_element rc pn i_el as1) (\<lambda>as2. Inr (as2, True))
              else Inr (as1, False)))"

text \<open>
  The loop \<^verbatim>\<open>for (i_el = 0; i_el < p.m_elements.size(); ++i_el)\<close>, whose body ends in
  \<^verbatim>\<open>else ++i_el\<close>: after an element that stays the counter moves on by two, after a
  retired one by one past the element that took its place. A pass never lengthens
  the patch, so the loop ends.
\<close>

lemma foldE_preserves:
  assumes "\<And>x s s'. f x s = Inr s' \<Longrightarrow> P s \<Longrightarrow> P s'"
      and "P s" "foldE f xs s = Inr s'"
  shows "P s'"
  using assms(2,3)
proof (induction xs arbitrary: s)
  case Nil
  then show ?case by simp
next
  case (Cons x xs)
  from Cons.prems(2) obtain s1 where s1: "f x s = Inr s1" and rest: "foldE f xs s1 = Inr s'"
    by (auto split: sum.splits)
  show ?case by (rule Cons.IH[OF assms(1)[OF s1 Cons.prems(1)] rest])
qed

lemma kill_connection_length:
  assumes "kill_connection rc i_el en fn p = Inr p'"
  shows "length (m_elements p') = length (m_elements p)"
  using assms
  by (auto simp: kill_connection_def bindE_def split: sum.splits if_splits option.splits)

lemma deallocate_element_particles:
  assumes "deallocate_element rc as x = Inr as'"
  shows "advected_particles as' = advected_particles as"
  using assms by (auto simp: deallocate_element_def Let_def split: if_splits)

lemma retire_element_length:
  assumes "retire_element rc pn i_el as = Inr as'"
  shows "length (m_elements (advected_particles as' ! pn))
       \<le> length (m_elements (advected_particles as ! pn))"
proof -
  let ?p = "advected_particles as ! pn"
  let ?en = "m_id (m_element_info (m_elements ?p ! i_el))"
  from assms obtain p1 as1 where
    k: "foldE (kill_connection rc i_el ?en) [0..<m_faces_per_element rc] ?p = Inr p1"
    and d: "deallocate_element rc as (m_start_index (m_elements p1 ! i_el)) = Inr as1"
    and r: "as' = as1\<lparr>advected_particles := (advected_particles as1)
                  [pn := p1\<lparr>m_elements := take i_el (m_elements p1)
                                            @ drop (Suc i_el) (m_elements p1)\<rparr>]\<rparr>"
    by (auto simp: retire_element_def Let_def bindE_def split: sum.splits)
  have len1: "length (m_elements p1) = length (m_elements ?p)"
    by (rule foldE_preserves[where P = "\<lambda>q. length (m_elements q) = length (m_elements ?p)",
          OF _ _ k]) (simp_all add: kill_connection_length)
  have ps: "advected_particles as1 = advected_particles as"
    by (rule deallocate_element_particles[OF d])
  show ?thesis
  proof (cases "pn < length (advected_particles as)")
    case True
    then show ?thesis using r ps len1 by simp
  next
    case False
    then show ?thesis using r ps by (simp add: list_update_beyond)
  qed
qed

lemma upkeep_element_length:
  assumes "upkeep_element rc pc pn i_el as = Inr (as', retired)"
  shows "length (m_elements (advected_particles as' ! pn))
       \<le> length (m_elements (advected_particles as ! pn))"
proof -
  let ?p = "advected_particles as ! pn"
  let ?el = "m_elements ?p ! i_el"
  let ?el1 = "if m_min_life ?el \<noteq> 0 then ?el\<lparr>m_min_life := m_min_life ?el - 1\<rparr> else ?el"
  let ?as1 = "as\<lparr>advected_particles := (advected_particles as)
                  [pn := ?p\<lparr>m_elements := (m_elements ?p)[i_el := ?el1]\<rparr>]\<rparr>"
  have len1: "length (m_elements (advected_particles ?as1 ! pn)) = length (m_elements ?p)"
    by (cases "pn < length (advected_particles as)") (simp_all add: list_update_beyond)
  from assms have "as' = ?as1 \<or> retire_element rc pn i_el ?as1 = Inr as'"
    by (auto simp: upkeep_element_def Let_def bindE_def split: sum.splits if_splits)
  then show ?thesis
  proof
    assume "as' = ?as1"
    then show ?thesis using len1 by simp
  next
    assume "retire_element rc pn i_el ?as1 = Inr as'"
    from retire_element_length[OF this] show ?thesis using len1 by simp
  qed
qed

function upkeep_elements :: "reconstructor \<Rightarrow> real \<Rightarrow> nat \<Rightarrow> nat \<Rightarrow> advective_state
    \<Rightarrow> error + advective_state" where
  "upkeep_elements rc particle_charge pn i_el as =
     (if i_el < length (m_elements (advected_particles as ! pn))
      then (case upkeep_element rc particle_charge pn i_el as of
              Inl e \<Rightarrow> Inl e
            | Inr (as', retired) \<Rightarrow>
                upkeep_elements rc particle_charge pn (if retired then i_el + 1 else i_el + 2) as')
      else Inr as)"
  by pat_completeness auto
termination
proof (relation "measure (\<lambda>(rc, pc, pn, i_el, as).
                  length (m_elements (advected_particles as ! pn)) - i_el)")
  show "wf (measure (\<lambda>(rc, pc, pn, i_el, as).
                  length (m_elements (advected_particles as ! pn)) - i_el))"
    by simp
next
  fix rc :: reconstructor and particle_charge :: real and pn i_el :: nat
    and as :: advective_state and x2 :: "advective_state \<times> bool"
    and as' :: advective_state and retired :: bool
  assume lt: "i_el < length (m_elements (advected_particles as ! pn))"
    and up: "upkeep_element rc particle_charge pn i_el as = Inr x2"
    and x2: "(as', retired) = x2"
  have "upkeep_element rc particle_charge pn i_el as = Inr (as', retired)"
    using up x2 by simp
  from upkeep_element_length[OF this] lt
  show "((rc, particle_charge, pn, if retired then i_el + 1 else i_el + 2, as'),
         rc, particle_charge, pn, i_el, as)
        \<in> measure (\<lambda>(rc, pc, pn, i_el, as).
                  length (m_elements (advected_particles as ! pn)) - i_el)"
    by auto
qed

definition perform_reconstructor_upkeep :: "reconstructor \<Rightarrow> particle_state \<Rightarrow> advective_state
    \<Rightarrow> error + advective_state" where
  "perform_reconstructor_upkeep rc ps as =
     (if m_kill_threshold rc = 0 then Inl (RuntimeError ''zero kill threshold'')
      else foldE (\<lambda>pn as1. bindE (vec_at (charges ps) pn) (\<lambda>charge.
                     upkeep_elements rc \<bar>charge\<bar> pn 0 as1))
             [0..<length (advected_particles as)] as)"

section \<open>Flux computation\<close>

subsection \<open>Looking up the two sides of a face\<close>

record face_view =
  is_boundary :: bool
  flux_face :: flux_face
  opposite_flux_face :: flux_face
  idx_list :: "nat list"
  opp_idx_list :: "nat list"

definition resolve_face :: "reconstructor \<Rightarrow> nat \<Rightarrow> nat \<Rightarrow> error + face_view" where
  "resolve_face rc en fn =
     (case m_el_face_to_face_pair_locator rc (en, fn) of
        None \<Rightarrow> Inl (LogicError ''item not found in map'')
      | Some fp_locator \<Rightarrow>
          (let fg = m_face_group fp_locator;
               fp = m_face_pair fp_locator;
               flux_face_a = loc fp;
               is_face_b = (en \<noteq> element_id flux_face_a);
               bdry = (element_id (opp fp) = INVALID_ELEMENT);
               flux_face_b = opp fp
           in if bdry \<and> is_face_b
              then Inl (RuntimeError ''looking for non-existant cross-boundary element'')
              else if is_face_b \<and> en \<noteq> element_id flux_face_b
              then Inl (RuntimeError ''el/face lookup failed'')
              else
                (let ff = (if is_face_b then flux_face_b else flux_face_a);
                     off = (if is_face_b then flux_face_a else flux_face_b)
                 in Inr \<lparr>is_boundary = bdry, flux_face = ff, opposite_flux_face = off,
                          idx_list = index_list fg (face_index_list_number ff),
                          opp_idx_list = index_list fg (face_index_list_number off)\<rparr>)))"

subsection \<open>Activating the element across an outflow face\<close>

text \<open>The loop that takes the largest \<^verbatim>\<open>fabs(as.rho[this_base_idx+idx_list[i]])\<close>, starting from \<open>0\<close>.\<close>

definition trace_max :: "real list \<Rightarrow> nat \<Rightarrow> nat list \<Rightarrow> nat \<Rightarrow> error + real" where
  "trace_max rho_v this_base_idx il face_length =
     foldE (\<lambda>i max_density. bindE (vec_at il i) (\<lambda>k.
              bindE (vec_at rho_v (u32 (this_base_idx + k))) (\<lambda>r.
                Inr (max max_density \<bar>r\<bar>))))
       [0..<face_length] 0"

text \<open>
  The search \<^verbatim>\<open>for (; opp_index_in_opp_neigh < m_faces.size(); ++opp_index_in_opp_neigh)\<close>
  for the first face whose neighbour is \<open>en\<close>; the number of faces when there is none.
\<close>

fun first_face_to :: "nat \<Rightarrow> face_info list \<Rightarrow> nat" where
  "first_face_to en [] = 0"
| "first_face_to en (f # fs) = (if m_neighbor f = en then 0 else Suc (first_face_to en fs))"

text \<open>
  One pass of the loop over the faces of the element being activated: the state is
  the element under construction and the patch it will join.
\<close>

definition wire_neighbor :: "reconstructor \<Rightarrow> nat \<Rightarrow> nat \<times> face_info
    \<Rightarrow> active_element \<times> advected_particle \<Rightarrow> error + (active_element \<times> advected_particle)" where
  "wire_neighbor rc opp_en numbered_face st =
     (let opp_fn = fst numbered_face;
          opp_neigh_en = m_neighbor (snd numbered_face);
          opp_element = fst st;
          p = snd st
      in case find_element p opp_neigh_en of
           None \<Rightarrow> Inr st
         | Some k \<Rightarrow>
             bindE (vec_put (m_connections opp_element) opp_fn opp_neigh_en) (\<lambda>c.
             bindE (vec_at (mesh_element_info (m_mesh_data rc)) opp_neigh_en) (\<lambda>opp_neigh_einfo.
               let opp_index_in_opp_neigh = first_face_to opp_en (m_faces opp_neigh_einfo)
               in if opp_index_in_opp_neigh = length (m_faces opp_neigh_einfo)
                  then Inl (RuntimeError ''opp not found in opp_neigh'')
                  else bindE (vec_put (m_connections (m_elements p ! k))
                                opp_index_in_opp_neigh opp_en) (\<lambda>c'.
                         Inr (opp_element\<lparr>m_connections := c\<rparr>,
                              p\<lparr>m_elements := (m_elements p)
                                   [k := (m_elements p ! k)\<lparr>m_connections := c'\<rparr>]\<rparr>)))))"

definition grow_fluxes :: "nat \<Rightarrow> real list \<Rightarrow> error + real list" where
  "grow_fluxes rho_size fluxes =
     (if rho_size \<noteq> length fluxes
      then (if length fluxes \<le> rho_size
            then Inr (fluxes @ replicate (rho_size - length fluxes) 0)
            else Inl (UndefinedBehaviour ''range outside the vector''))
      else Inr fluxes)"

definition activate_opposite :: "reconstructor \<Rightarrow> nat \<Rightarrow> nat \<Rightarrow> advective_state \<times> real list
    \<Rightarrow> error + (advective_state \<times> real list)" where
  "activate_opposite rc pn opp_en st =
     bindE (vec_at (mesh_element_info (m_mesh_data rc)) opp_en) (\<lambda>opp_einfo.
     bindE (allocate_element rc (fst st)) (\<lambda>allocated.
       let as1 = fst allocated; start = snd allocated
       in bindE (set_subrange (rho as1) start (u32 (start + m_dofs_per_element rc))
                   (replicate (m_dofs_per_element rc) 0)) (\<lambda>rho1.
          bindE (grow_fluxes (length rho1) (snd st)) (\<lambda>fluxes1.
            let as2 = as1\<lparr>rho := rho1\<rparr>;
                opp_element = \<lparr>m_element_info = opp_einfo,
                               m_connections = replicate max_faces INVALID_ELEMENT,
                               m_start_index = start, m_min_life = 10\<rparr>
            in bindE (foldE (wire_neighbor rc opp_en)
                        (zip [0..<length (m_faces opp_einfo)] (m_faces opp_einfo))
                        (opp_element, advected_particles as2 ! pn)) (\<lambda>wired.
                 Inr (as2\<lparr>advected_particles := (advected_particles as2)
                        [pn := (snd wired)\<lparr>m_elements := m_elements (snd wired) @ [fst wired]\<rparr>]\<rparr>,
                      fluxes1))))))"

subsection \<open>Accumulating the face integrals\<close>

definition accumulate_active :: "reconstructor \<Rightarrow> real list \<Rightarrow> nat \<Rightarrow> nat \<Rightarrow> nat list \<Rightarrow> nat list
    \<Rightarrow> real \<Rightarrow> real \<Rightarrow> real list \<Rightarrow> error + real list" where
  "accumulate_active rc rho_v this_base_idx opp_base_idx il oil int_coeff ext_coeff fluxes =
     foldE (\<lambda>i fl. bindE (vec_at il i) (\<lambda>ki.
              bindE (mapE (\<lambda>j.
                       bindE (mat_at (m_face_mass_matrix rc) i j) (\<lambda>fmm_entry.
                       bindE (vec_at il j) (\<lambda>kj.
                       bindE (vec_at oil j) (\<lambda>okj.
                       bindE (vec_at rho_v (u32 (this_base_idx + kj))) (\<lambda>a.
                       bindE (vec_at rho_v (u32 (opp_base_idx + okj))) (\<lambda>b.
                         Inr (a * int_coeff * fmm_entry + b * ext_coeff * fmm_entry)))))))
                     [0..<size1 (m_face_mass_matrix rc)]) (\<lambda>summands.
              bindE (vec_at fl (u32 (this_base_idx + ki))) (\<lambda>old.
                vec_put fl (u32 (this_base_idx + ki)) (old + sum_list summands)))))
       [0..<size1 (m_face_mass_matrix rc)] fluxes"

definition accumulate_inflow :: "reconstructor \<Rightarrow> real list \<Rightarrow> nat \<Rightarrow> nat list
    \<Rightarrow> real \<Rightarrow> real list \<Rightarrow> error + real list" where
  "accumulate_inflow rc rho_v this_base_idx il int_coeff fluxes =
     foldE (\<lambda>i fl. bindE (vec_at il i) (\<lambda>ki.
              bindE (mapE (\<lambda>j.
                       bindE (vec_at il j) (\<lambda>kj.
                       bindE (vec_at rho_v (u32 (this_base_idx + kj))) (\<lambda>a.
                       bindE (mat_at (m_face_mass_matrix rc) i j) (\<lambda>fmm_entry.
                         Inr (a * int_coeff * fmm_entry)))))
                     [0..<size1 (m_face_mass_matrix rc)]) (\<lambda>summands.
              bindE (vec_at fl (u32 (this_base_idx + ki))) (\<lambda>old.
                vec_put fl (u32 (this_base_idx + ki)) (old + sum_list summands)))))
       [0..<size1 (m_face_mass_matrix rc)] fluxes"

subsection \<open>One face of one element\<close>

text \<open>
  The condition under which the element across the face is activated, and the body
  of the loop over \<^verbatim>\<open>fn\<close>. The pointer \<^verbatim>\<open>opp_el\<close> is read (\<^verbatim>\<open>opp_el->m_start_index\<close>)
  before it is compared with null, as in the source.
\<close>

definition outflow_activation :: "reconstructor \<Rightarrow> real \<Rightarrow> nat \<Rightarrow> face_view \<Rightarrow> nat \<Rightarrow> bool \<Rightarrow> bool
    \<Rightarrow> advective_state \<times> real list \<Rightarrow> error + ((advective_state \<times> real list) \<times> bool)" where
  "outflow_activation rc shape_peak pn fv this_base_idx active inflow st =
     (if \<not> is_boundary fv \<and> \<not> active \<and> \<not> inflow
      then bindE (trace_max (rho (fst st)) this_base_idx (idx_list fv)
                    (size1 (m_face_mass_matrix rc))) (\<lambda>max_density.
             if max_density > m_activation_threshold rc * \<bar>shape_peak\<bar>
             then bindE (activate_opposite rc pn (element_id (opposite_flux_face fv)) st)
                    (\<lambda>st'. Inr (st', True))
             else Inr (st, active))
      else Inr (st, active))"

definition treat_face :: "reconstructor \<Rightarrow> real list \<Rightarrow> real \<Rightarrow> nat \<Rightarrow> nat \<Rightarrow> nat
    \<Rightarrow> advective_state \<times> real list \<Rightarrow> error + (advective_state \<times> real list)" where
  "treat_face rc v shape_peak pn i_el fn st =
     (let el = m_elements (advected_particles (fst st) ! pn) ! i_el;
          en = m_id (m_element_info el)
      in bindE (resolve_face rc en fn) (\<lambda>fv.
         let n_dot_v = inner_prod v (normal (flux_face fv));
             inflow = inflow_of n_dot_v
         in bindE (vec_at (m_connections el) fn) (\<lambda>connection.
            let active = (connection \<noteq> INVALID_ELEMENT)
            in if is_boundary fv \<and> active
               then Inl (RuntimeError ''detected boundary non-connection as active'')
               else
                 (let int_coeff = int_coeff_of (face_jacobian (flux_face fv)) n_dot_v
                                    (m_upwind_alpha rc);
                      ext_coeff = ext_coeff_of (face_jacobian (flux_face fv)) n_dot_v
                                    (m_upwind_alpha rc);
                      this_base_idx = m_start_index el
                  in bindE (outflow_activation rc shape_peak pn fv this_base_idx active inflow st)
                       (\<lambda>activated.
                     let st1 = fst activated;
                         active1 = snd activated;
                         p1 = advected_particles (fst st1) ! pn;
                         el1 = m_elements p1 ! i_el
                     in if active1
                        then bindE (vec_at (m_connections el1) fn) (\<lambda>connection1.
                               let opp_el = find_element p1 connection1
                               in bindE (case opp_el of
                                           None \<Rightarrow> Inl (UndefinedBehaviour ''null pointer dereferenced'')
                                         | Some k \<Rightarrow> Inr (m_start_index (m_elements p1 ! k)))
                                    (\<lambda>opp_base_idx.
                                  if opp_el = None
                                  then Inl (RuntimeError
                                         ''opposite element for active connection not found'')
                                  else bindE (accumulate_active rc (rho (fst st1)) this_base_idx
                                                opp_base_idx (idx_list fv) (opp_idx_list fv)
                                                int_coeff ext_coeff (snd st1))
                                         (\<lambda>fl. Inr (fst st1, fl))))
                        else if inflow
                        then bindE (accumulate_inflow rc (rho (fst st1)) this_base_idx
                                      (idx_list fv) int_coeff (snd st1))
                               (\<lambda>fl. Inr (fst st1, fl))
                        else Inr st1)))))"

subsection \<open>The loops over elements and particles\<close>

text \<open>
  The loop over \<^verbatim>\<open>i_el\<close> runs to the current size of the patch, which grows when an
  element is activated; not returning is the value \<open>None\<close>.
\<close>

partial_function (option) flux_elements :: "reconstructor \<Rightarrow> real list \<Rightarrow> real \<Rightarrow> nat \<Rightarrow> nat
    \<Rightarrow> advective_state \<times> real list \<Rightarrow> (error + (advective_state \<times> real list)) option" where
  "flux_elements rc v shape_peak pn i_el st =
     (if i_el < length (m_elements (advected_particles (fst st) ! pn))
      then (case foldE (treat_face rc v shape_peak pn i_el) [0..<m_faces_per_element rc] st of
              Inl e \<Rightarrow> Some (Inl e)
            | Inr st' \<Rightarrow> flux_elements rc v shape_peak pn (i_el + 1) st')
      else Some (Inr st))"

definition flux_particle :: "reconstructor \<Rightarrow> particle_state \<Rightarrow> real list \<Rightarrow> nat
    \<Rightarrow> advective_state \<times> real list \<Rightarrow> (error + (advective_state \<times> real list)) option" where
  "flux_particle rc ps velocities pn st =
     (case vec_at (charges ps) pn of
        Inl e \<Rightarrow> Some (Inl e)
      | Inr charge \<Rightarrow>
          (let shape_peak = m_shape_function (advected_particles (fst st) ! pn)
                              (replicate (m_dimensions (m_mesh_data rc)) 0) * charge
           in case subrange velocities (vdim ps * pn) (vdim ps * (pn + 1)) of
                Inl e \<Rightarrow> Some (Inl e)
              | Inr v \<Rightarrow> flux_elements rc v shape_peak pn 0 st))"

fun for_particles :: "(nat \<Rightarrow> 's \<Rightarrow> (error + 's) option) \<Rightarrow> nat list \<Rightarrow> 's \<Rightarrow> (error + 's) option" where
  "for_particles f [] s = Some (Inr s)"
| "for_particles f (pn # pns) s =
     (case f pn s of
        None \<Rightarrow> None
      | Some (Inl e) \<Rightarrow> Some (Inl e)
      | Some (Inr s') \<Rightarrow> for_particles f pns s')"

definition calculate_fluxes :: "reconstructor \<Rightarrow> particle_state \<Rightarrow> advective_state \<Rightarrow> real list
    \<Rightarrow> (error + (advective_state \<times> real list)) option" where
  "calculate_fluxes rc ps as velocities =
     (if m_activation_threshold rc = 0
      then Some (Inl (RuntimeError ''zero activation threshold''))
      else for_particles (flux_particle rc ps velocities)
             [0..<length (advected_particles as)]
             (as, replicate (length (rho as)) 0))"

subsection \<open>The activation rule as the specification words it\<close>

text \<open>
  A loop described by what each of its passes may do: \<open>fold_rel R xs s s'\<close> holds when
  the passes for \<open>xs\<close>, in order, lead from \<open>s\<close> to \<open>s'\<close> through states related by
  \<open>R\<close>.
\<close>

inductive fold_rel :: "('a \<Rightarrow> 's \<Rightarrow> 's \<Rightarrow> bool) \<Rightarrow> 'a list \<Rightarrow> 's \<Rightarrow> 's \<Rightarrow> bool"
  for R :: "'a \<Rightarrow> 's \<Rightarrow> 's \<Rightarrow> bool" where
  fold_rel_Nil: "fold_rel R [] s s"
| fold_rel_Cons: "R x s s1 \<Longrightarrow> fold_rel R xs s1 s' \<Longrightarrow> fold_rel R (x # xs) s s'"

text \<open>
  The neighbour \<open>opp_en\<close> has joined the patch of particle \<open>pn\<close>: the patch has one
  more element, the last one, which is the mesh element \<open>opp_en\<close> with the minimum
  life of a fresh element; the elements before it are the ones the patch had, and
  no other particle is touched.
\<close>

definition neighbour_activated :: "reconstructor \<Rightarrow> nat \<Rightarrow> nat \<Rightarrow> advective_state \<Rightarrow> advective_state
    \<Rightarrow> bool" where
  "neighbour_activated rc pn opp_en as as' \<longleftrightarrow>
     opp_en < length (mesh_element_info (m_mesh_data rc)) \<and>
     length (advected_particles as') = length (advected_particles as) \<and>
     (\<forall>q. q \<noteq> pn \<longrightarrow> advected_particles as' ! q = advected_particles as ! q) \<and>
     map m_element_info (m_elements (advected_particles as' ! pn))
       = map m_element_info (m_elements (advected_particles as ! pn))
           @ [mesh_element_info (m_mesh_data rc) ! opp_en] \<and>
     m_min_life (last (m_elements (advected_particles as' ! pn))) = 10"

text \<open>
  The specification's sentence for one face: the neighbour across the face is
  activated when it is not active (the connection slot is empty), the flow through
  the face is outward, the face is no domain boundary, and the largest absolute
  value along the face trace is strictly above
  \<open>activation_threshold * |peak shape value|\<close>; otherwise the state of the patches is
  left as it was. The rule says nothing about the fluxes.
\<close>

definition activation_rule_face :: "reconstructor \<Rightarrow> real list \<Rightarrow> real \<Rightarrow> nat \<Rightarrow> nat \<Rightarrow> nat
    \<Rightarrow> advective_state \<times> real list \<Rightarrow> advective_state \<times> real list \<Rightarrow> bool" where
  "activation_rule_face rc v shape_peak pn i_el fn st st' =
     (let as = fst st;
          el = m_elements (advected_particles as ! pn) ! i_el
      in case resolve_face rc (m_id (m_element_info el)) fn of
           Inl e \<Rightarrow> False
         | Inr fv \<Rightarrow>
             (case vec_at (m_connections el) fn of
                Inl e \<Rightarrow> False
              | Inr connection \<Rightarrow>
                  if connection = INVALID_ELEMENT
                     \<and> \<not> inflow_of (inner_prod v (normal (flux_face fv)))
                     \<and> \<not> is_boundary fv
                     \<and> Max (insert 0 ((\<lambda>i. \<bar>rho as ! u32 (m_start_index el + idx_list fv ! i)\<bar>)
                                ` {0..<size1 (m_face_mass_matrix rc)}))
                         > m_activation_threshold rc * \<bar>shape_peak\<bar>
                  then neighbour_activated rc pn (element_id (opposite_flux_face fv)) as (fst st')
                  else fst st' = as))"

text \<open>
  The rule for one particle: the faces of every element of the patch are treated in
  order, including the elements that join the patch on the way.
\<close>

inductive activation_rule_elements :: "reconstructor \<Rightarrow> real list \<Rightarrow> real \<Rightarrow> nat \<Rightarrow> nat
    \<Rightarrow> advective_state \<times> real list \<Rightarrow> advective_state \<times> real list \<Rightarrow> bool"
  for rc :: reconstructor and v :: "real list" and shape_peak :: real and pn :: nat where
  patch_done: "\<not> i_el < length (m_elements (advected_particles (fst st) ! pn))
     \<Longrightarrow> activation_rule_elements rc v shape_peak pn i_el st st"
| patch_step: "i_el < length (m_elements (advected_particles (fst st) ! pn))
     \<Longrightarrow> fold_rel (activation_rule_face rc v shape_peak pn i_el) [0..<m_faces_per_element rc] st st1
     \<Longrightarrow> activation_rule_elements rc v shape_peak pn (Suc i_el) st1 st'
     \<Longrightarrow> activation_rule_elements rc v shape_peak pn i_el st st'"


section \<open>Batched matrix products, divergence, mass inversion and the update\<close>

text \<open>
  \<^verbatim>\<open>gemm\<close> is the BLAS routine DGEMM, called with \<^verbatim>\<open>'T'\<close>, \<^verbatim>\<open>'N'\<close> and both scalars
  equal to \<open>1\<close>: for every column \<open>j < n\<close> and row \<open>i < m\<close> it adds the product of row
  \<open>i\<close> of the row-major matrix \<open>a\<close> with column \<open>j\<close> of \<open>b\<close> to the entry of \<open>c\<close>. The
  routine rejects leading dimensions that are too small and returns at once when
  there is nothing to do. \<open>c_off\<close> is the offset of the output in the vector that
  holds it.
\<close>

definition gemm_TN :: "nat \<Rightarrow> nat \<Rightarrow> nat \<Rightarrow> real list \<Rightarrow> nat \<Rightarrow> real list \<Rightarrow> nat
    \<Rightarrow> real list \<Rightarrow> nat \<Rightarrow> nat \<Rightarrow> error + real list" where
  "gemm_TN m n k a lda b ldb c c_off ldc =
     (if lda < max 1 k \<or> ldb < max 1 k \<or> ldc < max 1 m
      then Inl (LibraryError ''illegal value in a call of DGEMM'')
      else if m = 0 \<or> n = 0 \<or> k = 0 then Inr c
      else if length a < (m - 1) * lda + k \<or> length b < (n - 1) * ldb + k
              \<or> length c < c_off + (n - 1) * ldc + m
      then Inl (UndefinedBehaviour ''index outside the vector'')
      else Inr (fold (\<lambda>j c1.
                  fold (\<lambda>i c2.
                    c2[c_off + j * ldc + i :=
                         (\<Sum>l\<leftarrow>[0..<k]. a ! (i * lda + l) * b ! (j * ldb + l))
                         + c2 ! (c_off + j * ldc + i)])
                    [0..<m] c1)
                  [0..<n] c))"

definition active_contiguous_elements :: "advective_state \<Rightarrow> nat" where
  "active_contiguous_elements as = u32 (active_elements as + length (freelist as))"

definition batched_product :: "reconstructor \<Rightarrow> py_matrix \<Rightarrow> advective_state \<Rightarrow> real list
    \<Rightarrow> real list \<Rightarrow> nat \<Rightarrow> error + real list" where
  "batched_product rc matrix as b c c_off =
     gemm_TN (size1 matrix) (active_contiguous_elements as) (size2 matrix)
       (entries matrix) (size2 matrix) b (m_dofs_per_element rc) c c_off (m_dofs_per_element rc)"

text \<open>
  Both functions below take the state by reference and do not assign to it; the
  model returns the state next to the result.
\<close>

definition local_div_coeff :: "nat \<Rightarrow> real list \<Rightarrow> active_element \<Rightarrow> nat \<Rightarrow> error + real" where
  "local_div_coeff dims v el loc_axis =
     bindE (mapE (\<lambda>glob_axis.
              bindE (vec_at v glob_axis) (\<lambda>vg.
              bindE (vec_at (m_inverse_map (m_element_info el)) loc_axis) (\<lambda>row.
              bindE (vec_at row glob_axis) (\<lambda>entry. Inr (- vg * entry)))))
            [0..<dims])
       (\<lambda>summands. Inr (sum_list summands))"

definition local_div_element :: "reconstructor \<Rightarrow> nat \<Rightarrow> real list \<Rightarrow> real list \<Rightarrow> active_element
    \<Rightarrow> real list \<Rightarrow> error + real list" where
  "local_div_element rc dofs rst_derivs v el local_div =
     foldE (\<lambda>loc_axis ld.
              bindE (local_div_coeff (m_dimensions (m_mesh_data rc)) v el loc_axis) (\<lambda>coeff.
              bindE (subrange rst_derivs (loc_axis * dofs + m_start_index el)
                       (loc_axis * dofs + m_start_index el + m_dofs_per_element rc)) (\<lambda>d.
              bindE (subrange ld (m_start_index el)
                       (m_start_index el + m_dofs_per_element rc)) (\<lambda>old.
                set_subrange ld (m_start_index el) (m_start_index el + m_dofs_per_element rc)
                  (map2 (\<lambda>x y. x + coeff * y) old d)))))
       [0..<m_dimensions (m_mesh_data rc)] local_div"

definition calculate_local_div :: "reconstructor \<Rightarrow> particle_state \<Rightarrow> advective_state \<Rightarrow> real list
    \<Rightarrow> error + (advective_state \<times> real list)" where
  "calculate_local_div rc ps as velocities =
     (let dofs = length (rho as);
          dims = m_dimensions (m_mesh_data rc)
      in bindE (foldE (\<lambda>loc_axis rst_derivs.
                  if loc_axis < length (m_local_diff_matrices rc)
                  then batched_product rc (m_local_diff_matrices rc ! loc_axis) as (rho as)
                         rst_derivs (loc_axis * dofs)
                  else Inl OutOfRange)
                [0..<dims] (replicate (dims * dofs) 0)) (\<lambda>rst_derivs.
         bindE (foldE (\<lambda>pn local_div.
                  bindE (subrange velocities (vdim ps * pn) (vdim ps * (pn + 1))) (\<lambda>v.
                    foldE (local_div_element rc dofs rst_derivs v)
                      (m_elements (advected_particles as ! pn)) local_div))
                [0..<length (advected_particles as)] (replicate dofs 0)) (\<lambda>local_div.
           Inr (as, local_div))))"

definition jacobian_scaling :: "reconstructor \<Rightarrow> active_element \<Rightarrow> real list \<Rightarrow> error + real list" where
  "jacobian_scaling rc el result =
     (if m_jacobian (m_element_info el) = 0 then Inl NonFinite
      else bindE (subrange result (m_start_index el)
                    (m_start_index el + m_dofs_per_element rc)) (\<lambda>slab.
             set_subrange result (m_start_index el) (m_start_index el + m_dofs_per_element rc)
               (map (\<lambda>x. x * (1 / m_jacobian (m_element_info el))) slab)))"

definition apply_elementwise_inverse_mass_matrix :: "reconstructor \<Rightarrow> advective_state \<Rightarrow> real list
    \<Rightarrow> error + (advective_state \<times> real list)" where
  "apply_elementwise_inverse_mass_matrix rc as operand =
     bindE (batched_product rc (m_inverse_mass_matrix rc) as operand
              (replicate (length (rho as)) 0) 0) (\<lambda>result.
     bindE (foldE (\<lambda>p r. foldE (jacobian_scaling rc) (m_elements p) r)
              (advected_particles as) result) (\<lambda>scaled.
       Inr (as, scaled)))"

definition vec_minus :: "real list \<Rightarrow> real list \<Rightarrow> error + real list" where
  "vec_minus u v = (if length u = length v then Inr (map2 (-) u v)
                    else Inl (UndefinedBehaviour ''vector sizes differ''))"

definition vec_plus :: "real list \<Rightarrow> real list \<Rightarrow> error + real list" where
  "vec_plus u v = (if length u = length v then Inr (map2 (+) u v)
                   else Inl (UndefinedBehaviour ''vector sizes differ''))"

definition get_advective_particle_rhs :: "reconstructor \<Rightarrow> particle_state \<Rightarrow> advective_state
    \<Rightarrow> real list \<Rightarrow> (error + (advective_state \<times> real list)) option" where
  "get_advective_particle_rhs rc ps as velocities =
     (case calculate_fluxes rc ps as velocities of
        None \<Rightarrow> None
      | Some (Inl e) \<Rightarrow> Some (Inl e)
      | Some (Inr flux_result) \<Rightarrow>
          Some (bindE (calculate_local_div rc ps (fst flux_result) velocities) (\<lambda>div_result.
                bindE (apply_elementwise_inverse_mass_matrix rc (fst div_result)
                         (snd flux_result)) (\<lambda>minv_result.
                bindE (vec_minus (snd div_result) (snd minv_result)) (\<lambda>rhs.
                  Inr (fst minv_result, rhs))))))"

definition apply_advective_particle_rhs :: "reconstructor \<Rightarrow> particle_state \<Rightarrow> advective_state
    \<Rightarrow> real list \<Rightarrow> error + advective_state" where
  "apply_advective_particle_rhs rc ps as rhs =
     (if size1 (m_filter_matrix rc) \<noteq> 0 \<and> size2 (m_filter_matrix rc) \<noteq> 0
      then bindE (batched_product rc (m_filter_matrix rc) as rhs (rho as) 0)
             (\<lambda>r. Inr (as\<lparr>rho := r\<rparr>))
      else bindE (vec_plus (rho as) rhs) (\<lambda>r. Inr (as\<lparr>rho := r\<rparr>)))"

section \<open>Particle construction\<close>

text \<open>
  \<^verbatim>\<open>add_advective_particle\<close> hands a target to the element finder of
  \<^verbatim>\<open>element_finder.hpp\<close>, which is outside the repository's files; the finder calls
  \<^verbatim>\<open>add_shape_on_element(center, en)\<close> for the elements it finds. The sequence of these
  calls is the parameter \<open>found\<close> of the model. One call allocates a slab, samples the
  shape function at the nodes of the element and appends the element to the patch.
\<close>

definition add_shape_on_element :: "reconstructor \<Rightarrow> real list \<times> nat
    \<Rightarrow> advective_state \<times> advected_particle \<Rightarrow> error + (advective_state \<times> advected_particle)" where
  "add_shape_on_element rc call st =
     (let center = fst call; en = snd call; as = fst st; p = snd st
      in bindE (vec_at (mesh_element_info (m_mesh_data rc)) en) (\<lambda>einfo.
         bindE (allocate_element rc as) (\<lambda>allocated.
           let as1 = fst allocated; start = snd allocated
           in bindE (foldE (\<lambda>i rho_v.
                       bindE (vec_at (mesh_nodes (m_mesh_data rc)) (u32 (m_start einfo + i))) (\<lambda>node.
                       bindE (vec_minus node center) (\<lambda>r.
                         vec_put rho_v (u32 (start + i)) (m_shape_function p r))))
                     [0..<m_dofs_per_element rc] (rho as1)) (\<lambda>rho1.
                Inr (as1\<lparr>rho := rho1\<rparr>,
                     p\<lparr>m_elements := m_elements p @
                        [\<lparr>m_element_info = einfo,
                          m_connections = replicate max_faces INVALID_ELEMENT,
                          m_start_index = start, m_min_life = 0\<rparr>]\<rparr>)))))"

text \<open>
  The loop that makes the connections runs over the elements of the new particle by
  reference; \<open>connect_element p k\<close> is its body for the element at position \<open>k\<close>.
\<close>

definition connect_element :: "advected_particle \<Rightarrow> nat \<Rightarrow> error + advected_particle" where
  "connect_element p k =
     (let einfo = m_element_info (m_elements p ! k)
      in foldE (\<lambda>numbered_face p1.
                  if find_element p1 (m_neighbor (snd numbered_face)) \<noteq> None
                  then bindE (vec_put (m_connections (m_elements p1 ! k)) (fst numbered_face)
                                (m_neighbor (snd numbered_face))) (\<lambda>c.
                         Inr (p1\<lparr>m_elements := (m_elements p1)
                                [k := (m_elements p1 ! k)\<lparr>m_connections := c\<rparr>]\<rparr>))
                  else Inr p1)
           (zip [0..<length (m_faces einfo)] (m_faces einfo)) p)"

definition make_connections :: "advected_particle \<Rightarrow> error + advected_particle" where
  "make_connections p = foldE (\<lambda>k p1. connect_element p1 k) [0..<length (m_elements p)] p"

text \<open>The unscaled mass of one element, and the scaling of its slab.\<close>

definition unscaled_mass :: "reconstructor \<Rightarrow> real list \<Rightarrow> active_element \<Rightarrow> error + real" where
  "unscaled_mass rc rho_v el =
     bindE (subrange rho_v (m_start_index el) (u32 (m_start_index el + m_dofs_per_element rc)))
       (\<lambda>slab. Inr (element_integral rc (m_jacobian (m_element_info el)) slab))"

definition scale_slab :: "reconstructor \<Rightarrow> real \<Rightarrow> active_element \<Rightarrow> real list \<Rightarrow> error + real list" where
  "scale_slab rc scale el rho_v =
     bindE (subrange rho_v (m_start_index el) (u32 (m_start_index el + m_dofs_per_element rc)))
       (\<lambda>slab. set_subrange rho_v (m_start_index el)
                  (u32 (m_start_index el + m_dofs_per_element rc))
                  (map (\<lambda>x. x * scale) slab))"

text \<open>
  \<^verbatim>\<open>WARN\<close> is \<^verbatim>\<open>warning_listener::warn\<close>: the message goes to the registered listener,
  and without one the function throws. Whether a listener is registered is the
  parameter \<open>listener\<close>; the listener's \<^verbatim>\<open>note_warning\<close> is taken to return.
\<close>

definition warn :: "bool \<Rightarrow> error + unit" where
  "warn listener = (if listener then Inr ()
                    else Inl (RuntimeError ''warning raised, but no listener registered''))"

definition place_shapes :: "reconstructor \<Rightarrow> (real list \<times> nat) list \<Rightarrow> advective_state
    \<Rightarrow> (real list \<Rightarrow> real) \<Rightarrow> error + (advective_state \<times> advected_particle)" where
  "place_shapes rc found as sf =
     foldE (add_shape_on_element rc) found (as, \<lparr>m_shape_function = sf, m_elements = []\<rparr>)"

text \<open>
  The result carries the state and whether a warning was handed to the listener.
  \<^verbatim>\<open>std::accumulate\<close> adds the masses from the left, starting at \<open>0\<close>.
\<close>

definition add_advective_particle :: "reconstructor \<Rightarrow> bool \<Rightarrow> (real list \<times> nat) list
    \<Rightarrow> particle_state \<Rightarrow> advective_state \<Rightarrow> (real list \<Rightarrow> real) \<Rightarrow> nat
    \<Rightarrow> error + (advective_state \<times> bool)" where
  "add_advective_particle rc listener found ps as sf pn =
     (if pn \<noteq> length (advected_particles as)
      then Inl (RuntimeError ''advected particle added out of sequence'')
      else bindE (place_shapes rc found as sf) (\<lambda>placed.
           bindE (make_connections (snd placed)) (\<lambda>new_particle.
           bindE (mapE (unscaled_mass rc (rho (fst placed))) (m_elements new_particle))
             (\<lambda>unscaled_masses.
           bindE (vec_at (charges ps) pn) (\<lambda>charge.
             let total_unscaled_mass = foldl (+) 0 unscaled_masses
             in bindE (if total_unscaled_mass = 0
                       then bindE (warn listener) (\<lambda>u. Inr (charge, True))
                       else Inr (charge / total_unscaled_mass, False)) (\<lambda>scaling.
                bindE (foldE (scale_slab rc (fst scaling)) (m_elements new_particle)
                         (rho (fst placed))) (\<lambda>rho1.
                  Inr ((fst placed)\<lparr>rho := rho1,
                         advected_particles := advected_particles (fst placed) @ [new_particle]\<rparr>,
                       snd scaling))))))))"

text \<open>
  The quadrature-weighted integral of the degrees of freedom of a patch, read from
  the slabs of its elements in a vector \<open>rho\<close>.
\<close>

definition patch_integral :: "reconstructor \<Rightarrow> real list \<Rightarrow> advected_particle \<Rightarrow> real" where
  "patch_integral rc rho_v p =
     (\<Sum>el\<leftarrow>m_elements p. element_integral rc (m_jacobian (m_element_info el))
                              (take (m_dofs_per_element rc) (drop (m_start_index el) rho_v)))"

section \<open>A client of the allocator\<close>

text \<open>
  The patches hold the start offsets they were given. To speak about sequences of
  allocations and deallocations, a client runs a list of requests and keeps the list
  of offsets it holds; \<open>live_only\<close> says that every deallocation names an offset held
  at that moment.
\<close>


datatype alloc_op = Alloc | Dealloc nat

fun run_ops :: "reconstructor \<Rightarrow> alloc_op list \<Rightarrow> advective_state \<times> nat list
    \<Rightarrow> error + (advective_state \<times> nat list)" where
  "run_ops rc [] st = Inr st"
| "run_ops rc (Alloc # ops) (as, live) =
     (case allocate_element rc as of
        Inl e \<Rightarrow> Inl e
      | Inr (as', start) \<Rightarrow> run_ops rc ops (as', live @ [start]))"
| "run_ops rc (Dealloc x # ops) (as, live) =
     (case deallocate_element rc as x of
        Inl e \<Rightarrow> Inl e
      | Inr as' \<Rightarrow> run_ops rc ops (as', remove1 x live))"

fun live_only :: "reconstructor \<Rightarrow> alloc_op list \<Rightarrow> advective_state \<times> nat list \<Rightarrow> bool" where
  "live_only rc [] st = True"
| "live_only rc (Alloc # ops) (as, live) =
     (case allocate_element rc as of
        Inl e \<Rightarrow> True
      | Inr (as', start) \<Rightarrow> live_only rc ops (as', live @ [start]))"
| "live_only rc (Dealloc x # ops) (as, live) =
     (x \<in> set live \<and>
      (case deallocate_element rc as x of
         Inl e \<Rightarrow> True
       | Inr as' \<Rightarrow> live_only rc ops (as', remove1 x live)))"

text \<open>
  The largest number of slabs a client holds at any moment of a run of requests that
  starts with \<open>k\<close> slabs held.
\<close>

fun peak_live :: "nat \<Rightarrow> alloc_op list \<Rightarrow> nat" where
  "peak_live k [] = k"
| "peak_live k (Alloc # ops) = max k (peak_live (Suc k) ops)"
| "peak_live k (Dealloc x # ops) = max k (peak_live (k - 1) ops)"

definition slab_count :: "advective_state \<Rightarrow> nat" where
  "slab_count as = active_elements as + length (freelist as)"

definition slab_numbers :: "nat \<Rightarrow> nat list \<Rightarrow> nat set" where
  "slab_numbers d live = (\<lambda>x. x div d) ` set live"

definition book_inv :: "nat \<Rightarrow> nat \<Rightarrow> advective_state \<Rightarrow> nat list \<Rightarrow> bool" where
  "book_inv d N as live \<longleftrightarrow>
     0 < d \<and> N * d < 4294967296 \<and> slab_count as \<le> N \<and>
     distinct live \<and> distinct (freelist as) \<and> (\<forall>x \<in> set live. d dvd x) \<and>
     length live = active_elements as \<and>
     slab_numbers d live \<union> set (freelist as) = {0..<slab_count as} \<and>
     slab_numbers d live \<inter> set (freelist as) = {}"

definition cap_inv :: "nat \<Rightarrow> advective_state \<Rightarrow> bool" where
  "cap_inv d as \<longleftrightarrow>
     d \<le> 2 * length (rho as) \<and> length (rho as) < 4294967296 \<and>
     slab_count as \<le> length (rho as) div d"


section \<open>A small mesh for concrete runs\<close>

text \<open>
  Two line elements \<open>0\<close> and \<open>1\<close> with two nodes each; face \<open>1\<close> of element \<open>0\<close>
  meets face \<open>0\<close> of element \<open>1\<close>, the two outer faces are domain boundaries.
\<close>

definition ex_einfo0 :: element_info where
  "ex_einfo0 = \<lparr>m_id = 0, m_start = 0, m_end = 2, m_jacobian = 1, m_inverse_map = [[2]],
     m_faces = [\<lparr>m_neighbor = INVALID_ELEMENT\<rparr>, \<lparr>m_neighbor = 1\<rparr>]\<rparr>"

definition ex_einfo1 :: element_info where
  "ex_einfo1 = \<lparr>m_id = 1, m_start = 2, m_end = 4, m_jacobian = 1, m_inverse_map = [[2]],
     m_faces = [\<lparr>m_neighbor = 0\<rparr>, \<lparr>m_neighbor = INVALID_ELEMENT\<rparr>]\<rparr>"

definition ex_mesh :: mesh_data where
  "ex_mesh = \<lparr>m_dimensions = 1, mesh_element_info = [ex_einfo0, ex_einfo1],
     mesh_nodes = [[0], [1], [1], [2]]\<rparr>"

definition ex_face_01 :: face_pair where
  "ex_face_01 =
     \<lparr>loc = \<lparr>element_id = 0, face_id = 1, face_index_list_number = 1, normal = [1],
              face_jacobian = 1\<rparr>,
      opp = \<lparr>element_id = 1, face_id = 0, face_index_list_number = 0, normal = [- 1],
              face_jacobian = 1\<rparr>\<rparr>"

definition ex_face_left :: face_pair where
  "ex_face_left =
     \<lparr>loc = \<lparr>element_id = 0, face_id = 0, face_index_list_number = 0, normal = [- 1],
              face_jacobian = 1\<rparr>,
      opp = \<lparr>element_id = INVALID_ELEMENT, face_id = 0, face_index_list_number = 0,
              normal = [], face_jacobian = 0\<rparr>\<rparr>"

definition ex_face_right :: face_pair where
  "ex_face_right =
     \<lparr>loc = \<lparr>element_id = 1, face_id = 1, face_index_list_number = 1, normal = [1],
              face_jacobian = 1\<rparr>,
      opp = \<lparr>element_id = INVALID_ELEMENT, face_id = 0, face_index_list_number = 0,
              normal = [], face_jacobian = 0\<rparr>\<rparr>"

definition ex_int_face_group :: face_group where
  "ex_int_face_group = \<lparr>face_pairs = [ex_face_01], index_lists = [[0], [1]]\<rparr>"

definition ex_bdry_face_group :: face_group where
  "ex_bdry_face_group = \<lparr>face_pairs = [ex_face_left, ex_face_right], index_lists = [[0], [1]]\<rparr>"

definition ex_locator :: "nat \<times> nat \<Rightarrow> face_pair_locator option" where
  "ex_locator =
     [(0, 1) \<mapsto> \<lparr>m_face_group = ex_int_face_group, m_face_pair = ex_face_01\<rparr>,
      (1, 0) \<mapsto> \<lparr>m_face_group = ex_int_face_group, m_face_pair = ex_face_01\<rparr>,
      (0, 0) \<mapsto> \<lparr>m_face_group = ex_bdry_face_group, m_face_pair = ex_face_left\<rparr>,
      (1, 1) \<mapsto> \<lparr>m_face_group = ex_bdry_face_group, m_face_pair = ex_face_right\<rparr>]"

definition ex_rc :: reconstructor where
  "ex_rc = \<lparr>m_mesh_data = ex_mesh, m_faces_per_element = 2, m_dofs_per_element = 2,
     m_integral_weights = [1, 1],
     m_inverse_mass_matrix = \<lparr>size1 = 2, size2 = 2, entries = [2, - 1, - 1, 2]\<rparr>,
     m_face_mass_matrix = \<lparr>size1 = 1, size2 = 1, entries = [1]\<rparr>,
     m_filter_matrix = \<lparr>size1 = 0, size2 = 0, entries = []\<rparr>,
     m_local_diff_matrices = [\<lparr>size1 = 2, size2 = 2, entries = [- 1 / 2, 1 / 2, - 1 / 2, 1 / 2]\<rparr>],
     m_el_face_to_face_pair_locator = ex_locator,
     m_activation_threshold = 1 / 10, m_kill_threshold = 1 / 10, m_upwind_alpha = 1\<rparr>"

text \<open>The same reconstructor with a filter matrix of two rows and two columns.\<close>

definition ex_rc_filter :: "real list \<Rightarrow> reconstructor" where
  "ex_rc_filter filter_entries =
     ex_rc\<lparr>m_filter_matrix := \<lparr>size1 = 2, size2 = 2, entries = filter_entries\<rparr>\<rparr>"

definition ex_state0 :: advective_state where
  "ex_state0 = \<lparr>active_elements = 0, freelist = [], advected_particles = [],
     rho = [0, 0, 0, 0]\<rparr>"

text \<open>A particle of charge \<open>1\<close> whose patch holds both elements, wired to each other.\<close>

definition ex_shape :: "real list \<Rightarrow> real" where
  "ex_shape r = (if inner_prod r r > 4 then 0 else 4 - inner_prod r r)"

definition ex_el0 :: active_element where
  "ex_el0 = \<lparr>m_element_info = ex_einfo0,
     m_connections = [INVALID_ELEMENT, 1, INVALID_ELEMENT, INVALID_ELEMENT],
     m_start_index = 0, m_min_life = 5\<rparr>"

definition ex_el1 :: active_element where
  "ex_el1 = \<lparr>m_element_info = ex_einfo1,
     m_connections = [0, INVALID_ELEMENT, INVALID_ELEMENT, INVALID_ELEMENT],
     m_start_index = 2, m_min_life = 1\<rparr>"

definition ex_ps :: particle_state where
  "ex_ps = \<lparr>charges = [1], vdim = 1\<rparr>"

definition ex_state2 :: advective_state where
  "ex_state2 = \<lparr>active_elements = 2, freelist = [],
     advected_particles = [\<lparr>m_shape_function = ex_shape, m_elements = [ex_el0, ex_el1]\<rparr>],
     rho = [1, 1, 0, 0]\<rparr>"

text \<open>A patch whose only element names element \<open>1\<close> on face \<open>1\<close>, while element \<open>1\<close> is not in the patch.\<close>

definition ex_state_dangling :: advective_state where
  "ex_state_dangling = \<lparr>active_elements = 1, freelist = [],
     advected_particles = [\<lparr>m_shape_function = ex_shape, m_elements = [ex_el0]\<rparr>],
     rho = [1, 1, 0, 0]\<rparr>"

text \<open>A patch holding element \<open>0\<close> alone, with a chosen value at the node on its face \<open>1\<close>.\<close>

definition ex_el0_alone :: active_element where
  "ex_el0_alone = \<lparr>m_element_info = ex_einfo0,
     m_connections = [INVALID_ELEMENT, INVALID_ELEMENT, INVALID_ELEMENT, INVALID_ELEMENT],
     m_start_index = 0, m_min_life = 0\<rparr>"

definition ex_state_alone :: "real \<Rightarrow> advective_state" where
  "ex_state_alone trace_value = \<lparr>active_elements = 1, freelist = [],
     advected_particles = [\<lparr>m_shape_function = ex_shape, m_elements = [ex_el0_alone]\<rparr>],
     rho = [1, trace_value, 0, 0]\<rparr>"

text \<open>The state after element \<open>1\<close> has been activated from element \<open>0\<close>.\<close>

definition ex_state_activated :: advective_state where
  "ex_state_activated = ex_state2\<lparr>advected_particles :=
     [\<lparr>m_shape_function = ex_shape,
       m_elements = [ex_el0\<lparr>m_min_life := 0\<rparr>, ex_el1\<lparr>m_min_life := 10\<rparr>]\<rparr>]\<rparr>"

section \<open>Properties of the flux coefficients\<close>

text \<open>
  C1 (as the source has it). With inflow meaning \<open>n\<cdot>v \<le> 0\<close>, the interior coefficient
  of a face is \<open>faceJacobian * (- n\<cdot>v) * (\<alpha> * [1 if inflow else 0] + (1 - \<alpha>) * 0.5)\<close>:
  the upwind part is switched on at inflow faces, not at outflow faces. The exterior
  coefficient is the same expression with both summands negated, that is, the negated
  interior coefficient.
\<close>

theorem flux_coefficients_blend:
  "int_coeff_of fj ndv \<alpha> =
     fj * (- ndv) * (\<alpha> * (if inflow_of ndv then 1 else 0) + (1 - \<alpha>) * 0.5)
   \<and> ext_coeff_of fj ndv \<alpha> =
     fj * (- ndv) * (- (\<alpha> * (if inflow_of ndv then 1 else 0)) - (1 - \<alpha>) * 0.5)
   \<and> ext_coeff_of fj ndv \<alpha> = - int_coeff_of fj ndv \<alpha>"
  by (simp add: int_coeff_of_def ext_coeff_of_def field_simps)

text \<open>
  C1 as the specification words it puts the upwind part of the interior coefficient
  on outflow faces. At an outflow face with \<open>n\<cdot>v = 1\<close>, unit face Jacobian and
  \<open>\<alpha> = 1\<close> the source computes \<open>0\<close>, the worded formula \<open>- 1\<close>.
\<close>

theorem int_coeff_outflow_counterexample:
  "int_coeff_of 1 1 1 \<noteq> 1 * (- 1) * (1 * (if inflow_of 1 then 0 else 1) + (1 - 1) * 0.5)"
  by (simp add: int_coeff_of_def inflow_of_def)

section \<open>The allocator keeps its slabs apart\<close>

lemma u32_id: "n < 4294967296 \<Longrightarrow> u32 n = n"
  by (simp add: u32_def)

lemma u32_dec: "0 < n \<Longrightarrow> n < 4294967296 \<Longrightarrow> u32 (n + 4294967295) = n - 1"
proof -
  assume a: "0 < n" "n < 4294967296"
  have "n + 4294967295 = (n - 1) + 1 * 4294967296" using a by simp
  then have "(n + 4294967295) mod 4294967296 = (n - 1) mod 4294967296"
    by (metis mod_mult_self1)
  then show ?thesis using a by (simp add: u32_def)
qed

lemma slab_numbers_append:
  "slab_numbers d (live @ [k * d]) = (if d = 0 then insert 0 (slab_numbers d live) else insert k (slab_numbers d live))"
  by (auto simp: slab_numbers_def)

lemma div_inj_on_multiples:
  "0 < (d::nat) \<Longrightarrow> d dvd x \<Longrightarrow> d dvd y \<Longrightarrow> x div d = y div d \<Longrightarrow> x = y"
  by (metis dvd_div_mult_self)

lemma slab_numbers_remove1:
  assumes "distinct live" "\<forall>x \<in> set live. d dvd x" "x \<in> set live" "0 < d"
  shows "slab_numbers d (remove1 x live) = slab_numbers d live - {x div d}"
proof -
  have "set (remove1 x live) = set live - {x}" using assms(1) by simp
  then show ?thesis
    unfolding slab_numbers_def using assms div_inj_on_multiples[OF assms(4)]
    by auto
qed

lemma bound_le:
  assumes "(N::nat) * d < 4294967296" "0 < d" "k \<le> N"
  shows "k * d < 4294967296 \<and> k < 4294967296"
proof -
  have "k * d \<le> N * d" using assms(3) by (rule mult_le_mono1)
  moreover have "k \<le> k * d" using assms(2) by simp
  ultimately show ?thesis using assms(1) by linarith
qed

lemma mult_notin_live:
  assumes "slab_numbers d live \<inter> F = {}" "k \<in> F" "0 < d"
  shows "k * d \<notin> set live"
proof
  assume "k * d \<in> set live"
  then have "(k * d) div d \<in> slab_numbers d live" unfolding slab_numbers_def by (rule imageI)
  then have "k \<in> slab_numbers d live" using assms(3) by simp
  then show False using assms(1,2) by auto
qed

lemma mult_notin_live_top:
  assumes "slab_numbers d live \<subseteq> {0..<n}" "0 < d"
  shows "n * d \<notin> set live"
proof
  assume "n * d \<in> set live"
  then have "(n * d) div d \<in> slab_numbers d live" unfolding slab_numbers_def by (rule imageI)
  then have "n \<in> slab_numbers d live" using assms(2) by simp
  then show False using assms(1) by auto
qed

lemma set_butlast_distinct:
  assumes "distinct xs" "xs \<noteq> []"
  shows "set (butlast xs) = set xs - {last xs}"
proof -
  have "xs = butlast xs @ [last xs]" using assms(2) by simp
  then have "distinct (butlast xs @ [last xs])" "set xs = set (butlast xs @ [last xs])"
    using assms(1) by simp_all
  then show ?thesis by auto
qed

lemma allocate_fresh:
  assumes "freelist as = []" "m_dofs_per_element rc = d" "0 < d"
      and "(active_elements as + 1) * d < 4294967296"
      and "allocate_element rc as = Inr (as', start)"
  shows "active_elements as' = active_elements as + 1 \<and> freelist as' = []
       \<and> start = active_elements as * d \<and> advected_particles as' = advected_particles as"
proof -
  have b1: "active_elements as + 1 < 4294967296"
    using bound_le[OF assms(4) assms(3), of "active_elements as + 1"] by simp
  have b2: "active_elements as * d < 4294967296"
    using bound_le[OF assms(4) assms(3), of "active_elements as"] by simp
  show ?thesis
    using assms(1,2,3,5) b1 b2
    by (auto simp: allocate_element_def Let_def resize_def u32_id split: if_splits)
qed

lemma allocate_reuse:
  assumes "freelist as \<noteq> []" "m_dofs_per_element rc = d" "0 < d"
      and "active_elements as + 1 < 4294967296" "last (freelist as) * d < 4294967296"
      and "allocate_element rc as = Inr (as', start)"
  shows "active_elements as' = active_elements as + 1 \<and> freelist as' = butlast (freelist as)
       \<and> start = last (freelist as) * d \<and> rho as' = rho as
       \<and> advected_particles as' = advected_particles as"
  using assms by (auto simp: allocate_element_def u32_id)

lemma allocate_book:
  assumes inv: "book_inv d N as live" and d: "m_dofs_per_element rc = d"
      and room: "length live < N"
      and al: "allocate_element rc as = Inr (as', start)"
  shows "book_inv d N as' (live @ [start])"
proof (cases "freelist as = []")
  case True
  from inv have dpos: "0 < d" and nd: "N * d < 4294967296" by (auto simp: book_inv_def)
  from inv True have act: "active_elements as = length live" "slab_count as = length live"
    by (auto simp: book_inv_def slab_count_def)
  have b: "(active_elements as + 1) * d < 4294967296"
    using bound_le[OF nd dpos, of "length live + 1"] room act by simp
  note as' = allocate_fresh[OF True d dpos b al]
  have sn: "slab_numbers d live = {0..<length live}"
    using inv True act by (auto simp: book_inv_def)
  have notin: "length live * d \<notin> set live"
    using mult_notin_live_top[of d live "length live"] sn dpos by simp
  have "slab_numbers d (live @ [start]) = {0..<length live + 1}"
    using as' act sn dpos by (auto simp: slab_numbers_append)
  then show ?thesis
    using inv act as' dpos notin room
    by (simp add: book_inv_def slab_count_def)
next
  case False
  from inv have dpos: "0 < d" and nd: "N * d < 4294967296" by (auto simp: book_inv_def)
  let ?k = "last (freelist as)"
  have kin: "?k \<in> set (freelist as)" using False by simp
  from inv kin have klt: "?k < slab_count as" by (auto simp: book_inv_def)
  from inv have cnt: "slab_count as \<le> N" by (simp add: book_inv_def)
  have fl1: "1 \<le> length (freelist as)" using False by (cases "freelist as") auto
  have b: "?k * d < 4294967296"
    using bound_le[OF nd dpos, of ?k] klt cnt by simp
  have b2: "active_elements as + 1 < 4294967296"
    using bound_le[OF nd dpos, of "active_elements as + 1"] cnt fl1 by (simp add: slab_count_def)
  note as' = allocate_reuse[OF False d dpos b2 b al]
  from inv have dfl: "distinct (freelist as)" by (simp add: book_inv_def)
  have setbl: "set (butlast (freelist as)) = set (freelist as) - {?k}"
    by (rule set_butlast_distinct[OF dfl False])
  have cnt': "slab_count as' = slab_count as"
    using as' fl1 by (simp add: slab_count_def)
  from inv have disj: "slab_numbers d live \<inter> set (freelist as) = {}"
    and un: "slab_numbers d live \<union> set (freelist as) = {0..<slab_count as}"
    by (simp_all add: book_inv_def)
  have notin: "?k * d \<notin> set live"
    by (rule mult_notin_live[OF disj kin dpos])
  have sn: "slab_numbers d (live @ [start]) = insert ?k (slab_numbers d live)"
    using as' dpos by (simp add: slab_numbers_append)
  have un': "slab_numbers d (live @ [start]) \<union> set (freelist as') = {0..<slab_count as'}"
    using sn setbl un kin as' cnt' by auto
  have disj': "slab_numbers d (live @ [start]) \<inter> set (freelist as') = {}"
    using sn setbl disj as' by auto
  show ?thesis
    using inv as' dpos notin cnt' un' disj' distinct_butlast[OF dfl]
    by (simp add: book_inv_def)
qed

lemma deallocate_result:
  assumes "m_dofs_per_element rc = d" "0 < d" "d dvd x"
      and "0 < active_elements as" "active_elements as < 4294967296"
  shows "deallocate_element rc as x =
     Inr (if x div d \<noteq> active_elements as - 1 + length (freelist as)
          then as\<lparr>active_elements := active_elements as - 1, freelist := freelist as @ [x div d]\<rparr>
          else as\<lparr>active_elements := active_elements as - 1\<rparr>)"
proof -
  have m: "x mod d = 0" using assms(3) by (simp add: mod_eq_0_iff_dvd)
  have u: "u32 (active_elements as + 4294967295) = active_elements as - 1"
    by (rule u32_dec[OF assms(4,5)])
  show ?thesis
    unfolding deallocate_element_def Let_def using assms(1,2) m u by simp
qed

lemma dealloc_sets_push:
  assumes "S \<union> F = {0..<n}" "S \<inter> F = {}" "k \<in> S"
  shows "(S - {k}) \<union> insert k F = {0..<n} \<and> (S - {k}) \<inter> insert k F = {}"
  using assms by blast

lemma dealloc_sets_top:
  assumes "S \<union> F = {0..<n}" "S \<inter> F = {}" "k \<in> S" "Suc k = n"
  shows "(S - {k}) \<union> F = {0..<k} \<and> (S - {k}) \<inter> F = {}"
proof -
  have "{0..<n} - {k} = {0..<k}" using assms(4) by auto
  moreover have "(S - {k}) \<union> F = (S \<union> F) - {k}" using assms(2,3) by blast
  ultimately show ?thesis using assms(1,2) by auto
qed

lemma deallocate_book:
  assumes inv: "book_inv d N as live" and d: "m_dofs_per_element rc = d"
      and x: "x \<in> set live"
      and de: "deallocate_element rc as x = Inr as'"
  shows "book_inv d N as' (remove1 x live) \<and> slab_count as' \<le> slab_count as
       \<and> rho as' = rho as \<and> advected_particles as' = advected_particles as"
proof -
  from inv have dpos: "0 < d" and nd: "N * d < 4294967296" by (auto simp: book_inv_def)
  from inv x have dv: "d dvd x" by (auto simp: book_inv_def)
  from inv x have apos: "0 < active_elements as" by (cases live) (auto simp: book_inv_def)
  from inv have cnt: "slab_count as \<le> N" by (simp add: book_inv_def)
  have alt: "active_elements as < 4294967296"
    using bound_le[OF nd dpos, of "active_elements as"] cnt by (simp add: slab_count_def)
  define k where "k = x div d"
  define a where "a = active_elements as - 1"
  from inv have dl: "distinct live" and mult: "\<forall>x \<in> set live. d dvd x"
    and disj: "slab_numbers d live \<inter> set (freelist as) = {}"
    and un: "slab_numbers d live \<union> set (freelist as) = {0..<slab_count as}"
    and dfl: "distinct (freelist as)" and len: "length live = active_elements as"
    by (simp_all add: book_inv_def)
  have sn: "slab_numbers d (remove1 x live) = slab_numbers d live - {k}"
    unfolding k_def by (rule slab_numbers_remove1[OF dl mult x dpos])
  have kin: "k \<in> slab_numbers d live" using x by (auto simp: slab_numbers_def k_def)
  then have knf: "k \<notin> set (freelist as)" using disj by auto
  have len': "length (remove1 x live) = a" unfolding a_def using x len by (simp add: length_remove1)
  have dl': "distinct (remove1 x live)" using dl by simp
  have mult': "\<forall>y \<in> set (remove1 x live). d dvd y" using mult dl by simp
  have res: "as' = (if k \<noteq> a + length (freelist as)
          then as\<lparr>active_elements := a, freelist := freelist as @ [k]\<rparr>
          else as\<lparr>active_elements := a\<rparr>)"
    using de unfolding deallocate_result[OF d dpos dv apos alt] k_def a_def by simp
  have aS: "active_elements as = Suc a"
    unfolding a_def using apos by simp
  have sc: "slab_count as = Suc a + length (freelist as)"
    unfolding slab_count_def aS by simp
  show ?thesis
  proof (cases "k \<noteq> a + length (freelist as)")
    case True
    then have as': "as' = as\<lparr>active_elements := a, freelist := freelist as @ [k]\<rparr>"
      using res by simp
    have cnt': "slab_count as' = slab_count as" by (simp add: as' slab_count_def aS)
    have fl': "set (freelist as') = insert k (set (freelist as))" by (simp add: as')
    have sets: "slab_numbers d (remove1 x live) \<union> set (freelist as') = {0..<slab_count as'}
        \<and> slab_numbers d (remove1 x live) \<inter> set (freelist as') = {}"
      unfolding sn fl' cnt' by (rule dealloc_sets_push[OF un disj kin])
    have "distinct (freelist as')" using dfl knf by (simp add: as')
    moreover have "length (remove1 x live) = active_elements as'" using len' by (simp add: as')
    moreover have "slab_count as' \<le> N" using cnt cnt' by simp
    ultimately have "book_inv d N as' (remove1 x live)"
      unfolding book_inv_def using dpos nd dl' mult' sets by blast
    moreover have "rho as' = rho as \<and> advected_particles as' = advected_particles as"
      by (simp add: as')
    ultimately show ?thesis using cnt' by simp
  next
    case False
    then have as': "as' = as\<lparr>active_elements := a\<rparr>"
      using res by simp
    have cnt': "slab_count as' = k" using False by (simp add: as' slab_count_def)
    have kn: "Suc k = slab_count as" using False sc by simp
    have fl': "set (freelist as') = set (freelist as)" by (simp add: as')
    have sets: "slab_numbers d (remove1 x live) \<union> set (freelist as') = {0..<slab_count as'}
        \<and> slab_numbers d (remove1 x live) \<inter> set (freelist as') = {}"
      unfolding sn fl' cnt' by (rule dealloc_sets_top[OF un disj kin kn])
    have "distinct (freelist as')" using dfl by (simp add: as')
    moreover have "length (remove1 x live) = active_elements as'" using len' by (simp add: as')
    moreover have "slab_count as' \<le> N" using cnt cnt' kn by simp
    ultimately have "book_inv d N as' (remove1 x live)"
      unfolding book_inv_def using dpos nd dl' mult' sets by blast
    moreover have "rho as' = rho as \<and> advected_particles as' = advected_particles as"
      by (simp add: as')
    ultimately show ?thesis using cnt' kn by simp
  qed
qed



lemma less_succ_div_times:
  assumes "0 < (d::nat)"
  shows "len < (len div d + 1) * d"
proof -
  have "len < d + (len div d) * d" using assms by (rule dividend_less_div_times)
  then show ?thesis by (simp add: algebra_simps)
qed

lemma div_times_le: "(len div d) * d \<le> (len::nat)"
  by simp

lemma allocate_fresh_rho:
  assumes "freelist as = []" "m_dofs_per_element rc = d" "0 < d"
      and "length (rho as) < 4294967296"
      and "allocate_element rc as = Inr (as', start)"
  shows "rho as' = (if active_elements as = length (rho as) div d
                    then rho (resize as (u32 (2 * length (rho as)))) else rho as)"
proof -
  have "length (rho as) div d \<le> length (rho as)" by (rule div_le_dividend)
  then have "length (rho as) div d < 4294967296" using assms(4) by linarith
  then have avl: "u32 (length (rho as) div d) = length (rho as) div d"
    by (rule u32_id)
  have "allocate_element rc as =
     (let as1 = (if active_elements as = length (rho as) div d
                    then resize as (u32 (2 * length (rho as))) else as)
         in Inr (as1\<lparr>active_elements := u32 (active_elements as1 + 1)\<rparr>,
                 u32 (active_elements as1 * d)))"
    unfolding allocate_element_def using assms(1,2,3) avl by simp
  then show ?thesis using assms(5) by (simp add: Let_def split: if_splits)
qed

lemma resize_double:
  assumes "2 * length (rho as) < 4294967296"
  shows "length (rho (resize as (u32 (2 * length (rho as))))) = 2 * length (rho as)"
proof -
  have "u32 (2 * length (rho as)) = 2 * length (rho as)" using assms by (rule u32_id)
  then show ?thesis by (simp add: resize_def Let_def)
qed

lemma allocate_cap:
  assumes inv: "book_inv d N as live" and d: "m_dofs_per_element rc = d"
      and room: "length live < N" and big: "2 * (N * d) \<le> 4294967296"
      and cap: "cap_inv d as"
      and al: "allocate_element rc as = Inr (as', start)"
  shows "cap_inv d as'"
proof (cases "freelist as = []")
  case True
  from inv have dpos: "0 < d" and nd: "N * d < 4294967296" by (auto simp: book_inv_def)
  from inv True have act: "active_elements as = length live" "slab_count as = length live"
    by (auto simp: book_inv_def slab_count_def)
  define len where "len = length (rho as)"
  from cap have c: "d \<le> 2 * len" "len < 4294967296" "length live \<le> len div d"
    by (simp_all add: cap_inv_def act len_def)
  have b: "(active_elements as + 1) * d < 4294967296"
    using bound_le[OF nd dpos, of "length live + 1"] room act by simp
  note as' = allocate_fresh[OF True d dpos b al]
  have cnt': "slab_count as' = length live + 1" using as' act by (simp add: slab_count_def)
  have rho': "rho as' = (if length live = len div d
                    then rho (resize as (u32 (2 * len))) else rho as)"
    using allocate_fresh_rho[OF True d dpos _ al] c(2) act unfolding len_def by simp
  show ?thesis
  proof (cases "length live = len div d")
    case eq: True
    have "len < (len div d + 1) * d" by (rule less_succ_div_times[OF dpos])
    also have "\<dots> \<le> N * d" using room eq by (intro mult_le_mono1) simp
    finally have l2: "2 * len < 4294967296" using big by linarith
    have len': "length (rho as') = 2 * len"
      using rho' eq resize_double[of as] l2 unfolding len_def by simp
    have "length live + 1 \<le> (2 * len) div d"
    proof (cases "length live = 0")
      case True
      have "0 < (2 * len) div d" using c(1) dpos by (simp add: div_greater_zero_iff)
      then show ?thesis using True by simp
    next
      case False
      have "length live * d \<le> len" unfolding eq by (rule div_times_le)
      then have "(2 * length live) * d \<le> 2 * len" by simp
      then have "((2 * length live) * d) div d \<le> (2 * len) div d" by (rule div_le_mono)
      then have "2 * length live \<le> (2 * len) div d" using dpos by simp
      then show ?thesis using False by linarith
    qed
    then show ?thesis using len' cnt' c(1) l2 by (simp add: cap_inv_def)
  next
    case neq: False
    have "rho as' = rho as" using rho' neq by simp
    then show ?thesis using cnt' c neq by (simp add: cap_inv_def len_def)
  qed
next
  case False
  from inv have dpos: "0 < d" and nd: "N * d < 4294967296" by (auto simp: book_inv_def)
  let ?k = "last (freelist as)"
  have kin: "?k \<in> set (freelist as)" using False by simp
  from inv kin have klt: "?k < slab_count as" by (auto simp: book_inv_def)
  from inv have cnt: "slab_count as \<le> N" by (simp add: book_inv_def)
  have fl1: "1 \<le> length (freelist as)" using False by (cases "freelist as") auto
  have b: "?k * d < 4294967296"
    using bound_le[OF nd dpos, of ?k] klt cnt by simp
  have b2: "active_elements as + 1 < 4294967296"
    using bound_le[OF nd dpos, of "active_elements as + 1"] cnt fl1 by (simp add: slab_count_def)
  note as' = allocate_reuse[OF False d dpos b2 b al]
  have cnt': "slab_count as' = slab_count as"
    using as' fl1 by (simp add: slab_count_def)
  show ?thesis using cap as' cnt' by (simp add: cap_inv_def)
qed


lemma deallocate_cap:
  assumes inv: "book_inv d N as live" and d: "m_dofs_per_element rc = d"
      and x: "x \<in> set live" and cap: "cap_inv d as"
      and de: "deallocate_element rc as x = Inr as'"
  shows "cap_inv d as'"
  using deallocate_book[OF inv d x de] cap by (simp add: cap_inv_def)

lemma peak_live_ge: "k \<le> peak_live k ops"
proof (cases ops)
  case Nil
  then show ?thesis by simp
next
  case (Cons op ops')
  then show ?thesis by (cases op) simp_all
qed

lemma run_ops_book:
  assumes "book_inv d N as live" "m_dofs_per_element rc = d"
      and "peak_live (length live) ops \<le> N"
      and "live_only rc ops (as, live)"
      and "run_ops rc ops (as, live) = Inr (as', live')"
  shows "book_inv d N as' live'"
  using assms
proof (induction ops arbitrary: as live)
  case Nil
  then show ?case by simp
next
  case (Cons op ops)
  show ?case
  proof (cases op)
    case Alloc
    with Cons.prems(5) obtain as1 start where al: "allocate_element rc as = Inr (as1, start)"
      and run: "run_ops rc ops (as1, live @ [start]) = Inr (as', live')"
      by (auto split: sum.splits)
    have room: "length live < N"
      using Cons.prems(3) Alloc peak_live_ge[of "Suc (length live)" ops] by simp
    have inv1: "book_inv d N as1 (live @ [start])"
      by (rule allocate_book[OF Cons.prems(1,2) room al])
    have lo: "live_only rc ops (as1, live @ [start])" using Cons.prems(4) Alloc al by simp
    show ?thesis
      using Cons.IH[OF inv1 Cons.prems(2) _ lo run] Cons.prems(3) Alloc by simp
  next
    case (Dealloc x)
    with Cons.prems(5) obtain as1 where de: "deallocate_element rc as x = Inr as1"
      and run: "run_ops rc ops (as1, remove1 x live) = Inr (as', live')"
      by (auto split: sum.splits)
    have x: "x \<in> set live" using Cons.prems(4) Dealloc by simp
    have inv1: "book_inv d N as1 (remove1 x live)"
      using deallocate_book[OF Cons.prems(1,2) x de] by simp
    have lo: "live_only rc ops (as1, remove1 x live)" using Cons.prems(4) Dealloc de by simp
    have "length (remove1 x live) = length live - 1" using x by (simp add: length_remove1)
    then show ?thesis
      using Cons.IH[OF inv1 Cons.prems(2) _ lo run] Cons.prems(3) Dealloc by simp
  qed
qed

lemma run_ops_cap:
  assumes "book_inv d N as live" "m_dofs_per_element rc = d"
      and "peak_live (length live) ops \<le> N" "2 * (N * d) \<le> 4294967296"
      and "cap_inv d as"
      and "live_only rc ops (as, live)"
      and "run_ops rc ops (as, live) = Inr (as', live')"
  shows "cap_inv d as'"
  using assms
proof (induction ops arbitrary: as live)
  case Nil
  then show ?case by simp
next
  case (Cons op ops)
  show ?case
  proof (cases op)
    case Alloc
    with Cons.prems(7) obtain as1 start where al: "allocate_element rc as = Inr (as1, start)"
      and run: "run_ops rc ops (as1, live @ [start]) = Inr (as', live')"
      by (auto split: sum.splits)
    have room: "length live < N"
      using Cons.prems(3) Alloc peak_live_ge[of "Suc (length live)" ops] by simp
    have inv1: "book_inv d N as1 (live @ [start])"
      by (rule allocate_book[OF Cons.prems(1,2) room al])
    have cap1: "cap_inv d as1"
      by (rule allocate_cap[OF Cons.prems(1,2) room Cons.prems(4,5) al])
    have lo: "live_only rc ops (as1, live @ [start])" using Cons.prems(6) Alloc al by simp
    show ?thesis
      using Cons.IH[OF inv1 Cons.prems(2) _ Cons.prems(4) cap1 lo run] Cons.prems(3) Alloc by simp
  next
    case (Dealloc x)
    with Cons.prems(7) obtain as1 where de: "deallocate_element rc as x = Inr as1"
      and run: "run_ops rc ops (as1, remove1 x live) = Inr (as', live')"
      by (auto split: sum.splits)
    have x: "x \<in> set live" using Cons.prems(6) Dealloc by simp
    have inv1: "book_inv d N as1 (remove1 x live)"
      using deallocate_book[OF Cons.prems(1,2) x de] by simp
    have cap1: "cap_inv d as1"
      by (rule deallocate_cap[OF Cons.prems(1,2) x Cons.prems(5) de])
    have lo: "live_only rc ops (as1, remove1 x live)" using Cons.prems(6) Dealloc de by simp
    have "length (remove1 x live) = length live - 1" using x by (simp add: length_remove1)
    then show ?thesis
      using Cons.IH[OF inv1 Cons.prems(2) _ Cons.prems(4) cap1 lo run] Cons.prems(3) Dealloc by simp
  qed
qed


lemma run_ops_append:
  "run_ops rc (ops1 @ ops2) st =
     (case run_ops rc ops1 st of Inl e \<Rightarrow> Inl e | Inr st' \<Rightarrow> run_ops rc ops2 st')"
proof (induction ops1 arbitrary: st)
  case Nil
  then show ?case by simp
next
  case (Cons op ops1)
  obtain as live where st: "st = (as, live)" by (cases st)
  show ?case unfolding st using Cons.IH
    by (cases op) (auto split: sum.splits)
qed

lemma live_only_deallocs:
  assumes "book_inv d N as live" "m_dofs_per_element rc = d"
      and "distinct xs" "set xs \<subseteq> set live"
  shows "live_only rc (map Dealloc xs) (as, live)"
  using assms
proof (induction xs arbitrary: as live)
  case Nil
  then show ?case by simp
next
  case (Cons x xs)
  have x: "x \<in> set live" using Cons.prems(4) by simp
  show ?case
  proof (cases "deallocate_element rc as x")
    case (Inl e)
    then show ?thesis using x by simp
  next
    case (Inr as1)
    have inv1: "book_inv d N as1 (remove1 x live)"
      using deallocate_book[OF Cons.prems(1,2) x Inr] by simp
    have "set xs \<subseteq> set (remove1 x live)"
    proof
      fix y assume y: "y \<in> set xs"
      then have "y \<noteq> x" using Cons.prems(3) by auto
      moreover have "y \<in> set live" using y Cons.prems(4) by auto
      ultimately show "y \<in> set (remove1 x live)" by (simp add: in_set_remove1)
    qed
    then have "live_only rc (map Dealloc xs) (as1, remove1 x live)"
      using Cons.IH[OF inv1 Cons.prems(2)] Cons.prems(3) by simp
    then show ?thesis using x Inr by simp
  qed
qed

lemma live_only_allocs: "live_only rc (replicate k Alloc) (as, live)"
  by (induction k arbitrary: as live) (auto split: sum.splits)

lemma run_ops_deallocs_length:
  assumes "run_ops rc (map Dealloc xs) (as, live) = Inr (as', live')"
      and "distinct xs" "set xs \<subseteq> set live"
  shows "length live' + length xs = length live"
  using assms
proof (induction xs arbitrary: as live)
  case Nil
  then show ?case by simp
next
  case (Cons x xs)
  from Cons.prems(1) obtain as1 where
    run: "run_ops rc (map Dealloc xs) (as1, remove1 x live) = Inr (as', live')"
    by (auto split: sum.splits)
  have x: "x \<in> set live" using Cons.prems(3) by simp
  have sub: "set xs \<subseteq> set (remove1 x live)"
  proof
    fix y assume y: "y \<in> set xs"
    then have "y \<noteq> x" using Cons.prems(2) by auto
    moreover have "y \<in> set live" using y Cons.prems(3) by auto
    ultimately show "y \<in> set (remove1 x live)" by (simp add: in_set_remove1)
  qed
  have "length live' + length xs = length (remove1 x live)"
    using Cons.IH[OF run _ sub] Cons.prems(2) by simp
  then show ?case using x by (simp add: length_remove1) (cases live; simp)
qed

lemma run_ops_allocs_length:
  assumes "run_ops rc (replicate k Alloc) (as, live) = Inr (as', live')"
  shows "length live' = length live + k"
  using assms
proof (induction k arbitrary: as live)
  case 0
  then show ?case by simp
next
  case (Suc k)
  from Suc.prems obtain as1 start where
    run: "run_ops rc (replicate k Alloc) (as1, live @ [start]) = Inr (as', live')"
    by (auto split: sum.splits)
  show ?case using Suc.IH[OF run] by simp
qed

lemma peak_live_deallocs: "peak_live k (map Dealloc xs) = k"
  by (induction xs arbitrary: k) (auto simp: max_def)

lemma peak_live_allocs: "peak_live k (replicate j Alloc) = k + j"
  by (induction j arbitrary: k) (auto simp: max_def)

lemma book_inv_fresh:
  assumes "active_elements as = 0" "freelist as = []" "0 < d" "N * d < 4294967296"
  shows "book_inv d N as []"
  using assms by (simp add: book_inv_def slab_count_def slab_numbers_def)

lemma book_inv_shrink:
  assumes "book_inv d N as live"
  shows "book_inv d (slab_count as) as live"
proof -
  from assms have "slab_count as \<le> N" "N * d < 4294967296" by (simp_all add: book_inv_def)
  then have "slab_count as * d \<le> N * d" by (intro mult_le_mono1)
  then have "slab_count as * d < 4294967296" using \<open>N * d < 4294967296\<close> by linarith
  then show ?thesis using assms by (simp add: book_inv_def)
qed

lemma live_below:
  assumes "book_inv d N as live" "x \<in> set live"
  shows "x < slab_count as * d"
proof -
  from assms have dv: "d dvd x" and dpos: "0 < d"
    and un: "slab_numbers d live \<union> set (freelist as) = {0..<slab_count as}"
    by (auto simp: book_inv_def)
  have "x div d \<in> slab_numbers d live" using assms(2) by (auto simp: slab_numbers_def)
  then have "x div d < slab_count as" using un by auto
  then have "(x div d) * d < slab_count as * d" using dpos by simp
  then show ?thesis using dv by simp
qed

lemma live_all_slabs:
  assumes inv: "book_inv d N as live" and n: "slab_count as \<le> length live"
  shows "set live = (\<lambda>i. i * d) ` {0..<length live}"
proof -
  from inv have dl: "distinct live" and mult: "\<forall>x \<in> set live. d dvd x" and dpos: "0 < d"
    and un: "slab_numbers d live \<union> set (freelist as) = {0..<slab_count as}"
    by (auto simp: book_inv_def)
  have inj: "inj_on (\<lambda>x. x div d) (set live)"
    using mult div_inj_on_multiples[OF dpos] by (auto simp: inj_on_def)
  have "card (slab_numbers d live) = length live"
    unfolding slab_numbers_def using inj dl by (simp add: card_image distinct_card)
  moreover have "slab_numbers d live \<subseteq> {0..<slab_count as}" using un by blast
  then have sub: "slab_numbers d live \<subseteq> {0..<length live}" using n by force
  ultimately have eq: "slab_numbers d live = {0..<length live}"
    by (intro card_subset_eq) simp_all
  have "set live = (\<lambda>i. i * d) ` slab_numbers d live"
    unfolding slab_numbers_def image_image using mult by (auto simp: image_iff)
  then show ?thesis unfolding eq .
qed


text \<open>
  C4 (as the source has it). Let \<open>N\<close> bound the number of slabs held at once, with
  \<open>N * dofs_per_element\<close> inside the range of \<^verbatim>\<open>unsigned\<close>. Start from any state
  in which the offsets held are pairwise distinct multiples of
  \<^verbatim>\<open>dofs_per_element\<close> whose slab numbers, together with the free list, are exactly
  the numbers below \<open>active_elements + freelist.size()\<close>, itself at most \<open>N\<close>
  (\<open>book_inv\<close>; the state with no slab at all is one, by \<open>book_inv_fresh\<close>). Run
  any requests, however many, that deallocate held offsets only and never hold more
  than \<open>N\<close> slabs. Then the same holds at the end of the run, so that runs can be
  chained; in particular the offsets held are pairwise distinct multiples of
  \<^verbatim>\<open>dofs_per_element\<close>. If moreover the vector holds at least half a slab and at
  least the live and free slabs at the start (\<open>cap_inv\<close>), and
  \<open>2 * N * dofs_per_element\<close> does not exceed \<open>2^32\<close>, the same holds at the end
  and the number of live and free slabs does not exceed the number of slabs the
  vector holds. After deallocating every live slab, in any order, and allocating the
  same number again, the offsets held are again that many distinct multiples of
  \<^verbatim>\<open>dofs_per_element\<close>, all inside the packed range of live and free slabs as it
  was before; they are the first offsets \<open>0, dofs_per_element, \<dots>\<close> when the free
  list was empty at that moment.
\<close>

theorem allocator_offsets:
  assumes "book_inv (m_dofs_per_element rc) N as0 live0"
      and "peak_live (length live0) ops \<le> N"
      and "live_only rc ops (as0, live0)"
      and "run_ops rc ops (as0, live0) = Inr (as, live)"
  shows "book_inv (m_dofs_per_element rc) N as live
     \<and> distinct live \<and> (\<forall>x \<in> set live. m_dofs_per_element rc dvd x)
     \<and> (cap_inv (m_dofs_per_element rc) as0 \<and> 2 * (N * m_dofs_per_element rc) \<le> 4294967296
          \<longrightarrow> cap_inv (m_dofs_per_element rc) as
              \<and> active_elements as + length (freelist as)
                  \<le> length (rho as) div m_dofs_per_element rc)
     \<and> (\<forall>xs as2 live2. distinct xs \<and> set xs = set live
            \<and> run_ops rc (map Dealloc xs @ replicate (length xs) Alloc) (as, live) = Inr (as2, live2)
          \<longrightarrow> length live2 = length live \<and> distinct live2
              \<and> (\<forall>x \<in> set live2. m_dofs_per_element rc dvd x
                    \<and> x < (active_elements as + length (freelist as)) * m_dofs_per_element rc)
              \<and> (freelist as = []
                    \<longrightarrow> set live2 = (\<lambda>i. i * m_dofs_per_element rc) ` {0..<length live}))"
proof -
  define d where "d = m_dofs_per_element rc"
  have d: "m_dofs_per_element rc = d" by (simp add: d_def)
  have inv0: "book_inv d N as0 live0" using assms(1) by (simp add: d_def)
  have inv: "book_inv d N as live"
    by (rule run_ops_book[OF inv0 d assms(2,3,4)])
  have p1: "distinct live \<and> (\<forall>x \<in> set live. d dvd x)"
    using inv by (simp add: book_inv_def)
  have p2: "cap_inv d as0 \<and> 2 * (N * d) \<le> 4294967296
          \<longrightarrow> cap_inv d as \<and> active_elements as + length (freelist as) \<le> length (rho as) div d"
  proof
    assume a: "cap_inv d as0 \<and> 2 * (N * d) \<le> 4294967296"
    then have c0: "cap_inv d as0" and big: "2 * (N * d) \<le> 4294967296" by simp_all
    have c: "cap_inv d as"
      by (rule run_ops_cap[OF inv0 d assms(2) big c0 assms(3,4)])
    then show "cap_inv d as \<and> active_elements as + length (freelist as) \<le> length (rho as) div d"
      by (simp add: cap_inv_def slab_count_def)
  qed
  have p3: "length live2 = length live \<and> distinct live2
              \<and> (\<forall>x \<in> set live2. d dvd x \<and> x < (active_elements as + length (freelist as)) * d)
              \<and> (freelist as = [] \<longrightarrow> set live2 = (\<lambda>i. i * d) ` {0..<length live})"
    if dxs: "distinct xs" and sxs: "set xs = set live"
      and run2: "run_ops rc (map Dealloc xs @ replicate (length xs) Alloc) (as, live) = Inr (as2, live2)"
    for xs as2 live2
  proof -
    have lxs: "length xs = length live"
      using dxs sxs p1 by (metis distinct_card)
    have invn: "book_inv d (slab_count as) as live" by (rule book_inv_shrink[OF inv])
    from run2 obtain asm livem where
      runD: "run_ops rc (map Dealloc xs) (as, live) = Inr (asm, livem)"
      and runA: "run_ops rc (replicate (length xs) Alloc) (asm, livem) = Inr (as2, live2)"
      unfolding run_ops_append by (auto split: sum.splits)
    have loD: "live_only rc (map Dealloc xs) (as, live)"
      using live_only_deallocs[OF invn d dxs] sxs by simp
    have lenle: "length live \<le> slab_count as"
      using inv by (simp add: book_inv_def slab_count_def)
    have invm: "book_inv d (slab_count as) asm livem"
      using run_ops_book[OF invn d _ loD runD] lenle by (simp add: peak_live_deallocs)
    have "length livem + length xs = length live"
      using run_ops_deallocs_length[OF runD dxs] sxs by simp
    then have lm: "livem = []" using lxs by simp
    have inv2: "book_inv d (slab_count as) as2 live2"
      using run_ops_book[OF invm d _ live_only_allocs runA] lenle lxs lm
      by (simp add: peak_live_allocs)
    have len2: "length live2 = length live"
      using run_ops_allocs_length[OF runA] lm lxs by simp
    have below: "x < slab_count as * d" if "x \<in> set live2" for x
    proof -
      have "x < slab_count as2 * d" by (rule live_below[OF inv2 that])
      moreover have "slab_count as2 \<le> slab_count as" using inv2 by (simp add: book_inv_def)
      then have "slab_count as2 * d \<le> slab_count as * d" by (intro mult_le_mono1)
      ultimately show ?thesis by linarith
    qed
    have full: "set live2 = (\<lambda>i. i * d) ` {0..<length live}" if "freelist as = []"
    proof -
      have "slab_count as = length live" using that inv by (simp add: book_inv_def slab_count_def)
      moreover have "slab_count as2 \<le> slab_count as" using inv2 by (simp add: book_inv_def)
      ultimately have "slab_count as2 \<le> length live2" using len2 by simp
      from live_all_slabs[OF inv2 this] show ?thesis using len2 by simp
    qed
    show ?thesis
      using len2 inv2 below full by (auto simp: book_inv_def slab_count_def)
  qed
  show ?thesis
    using inv p1 p2 p3 unfolding d_def by blast
qed


lemma replicate_4: "replicate 4 x = [x, x, x, x]"
  by (simp add: numeral_eq_Suc)

lemmas alloc_eval = ex_state0_def ex_rc_def allocate_element_def deallocate_element_def u32_def
      resize_def Let_def replicate_4

text \<open>
  A run from the fresh state, with at most three slabs held at once, that doubles the
  vector, frees a slab in the middle and takes it again; then all three slabs are
  released and three are allocated.
\<close>

theorem allocator_offsets_witness:
  "book_inv (m_dofs_per_element ex_rc) 3 ex_state0 []
   \<and> peak_live (length ([]::nat list)) [Alloc, Alloc, Alloc, Dealloc 2, Alloc] = 3
   \<and> cap_inv (m_dofs_per_element ex_rc) ex_state0
   \<and> live_only ex_rc [Alloc, Alloc, Alloc, Dealloc 2, Alloc] (ex_state0, [])
   \<and> run_ops ex_rc [Alloc, Alloc, Alloc, Dealloc 2, Alloc] (ex_state0, [])
       = Inr (\<lparr>active_elements = 3, freelist = [], advected_particles = [],
               rho = [0, 0, 0, 0, 0, 0, 0, 0]\<rparr>, [0, 4, 2])
   \<and> book_inv 2 3 \<lparr>active_elements = 3, freelist = [], advected_particles = [],
               rho = [0, 0, 0, 0, 0, 0, 0, 0]\<rparr> [0, 4, 2]
   \<and> distinct [0, 4, 2::nat] \<and> 3 + length ([]::nat list) \<le> length [0, 0, 0, 0, 0, 0, 0, 0::real] div 2
   \<and> run_ops ex_rc (map Dealloc [4, 0, 2] @ replicate (length [4, 0, 2::nat]) Alloc)
         (\<lparr>active_elements = 3, freelist = [], advected_particles = [],
               rho = [0, 0, 0, 0, 0, 0, 0, 0]\<rparr>, [0, 4, 2])
       = Inr (\<lparr>active_elements = 3, freelist = [], advected_particles = [],
               rho = [0, 0, 0, 0, 0, 0, 0, 0]\<rparr>, [0, 2, 4])
   \<and> set [0, 2, 4] = (\<lambda>i. i * 2) ` {0..<length [0, 4, 2::nat]}"
proof -
  let ?ops = "[Alloc, Alloc, Alloc, Dealloc 2, Alloc]"
  let ?as = "\<lparr>active_elements = 3, freelist = [], advected_particles = [],
               rho = [0, 0, 0, 0, 0, 0, 0, 0::real]\<rparr>"
  have d: "m_dofs_per_element ex_rc = 2" by (simp add: ex_rc_def)
  have h1: "book_inv (m_dofs_per_element ex_rc) 3 ex_state0 []"
    unfolding d by (rule book_inv_fresh) (simp_all add: ex_state0_def)
  have pk: "peak_live (length ([]::nat list)) ?ops = 3" by simp
  have h2: "peak_live (length ([]::nat list)) ?ops \<le> 3" by simp
  have h0: "cap_inv (m_dofs_per_element ex_rc) ex_state0"
    by (simp add: cap_inv_def slab_count_def ex_state0_def ex_rc_def)
  have h5: "live_only ex_rc ?ops (ex_state0, [])"
    by (simp add: alloc_eval)
  have h6: "run_ops ex_rc ?ops (ex_state0, []) = Inr (?as, [0, 4, 2])"
    by (simp add: alloc_eval)
  have r2: "run_ops ex_rc (map Dealloc [4, 0, 2] @ replicate (length [4, 0, 2::nat]) Alloc)
         (?as, [0, 4, 2]) = Inr (?as, [0, 2, 4])"
    by (simp add: alloc_eval)
  note T = allocator_offsets[OF h1 h2 h5 h6]
  have c0: "book_inv 2 3 ?as [0, 4, 2]" using T unfolding d by blast
  have c1: "distinct [0, 4, 2::nat]" using T by blast
  have "cap_inv (m_dofs_per_element ex_rc) ex_state0
          \<and> 2 * (3 * m_dofs_per_element ex_rc) \<le> 4294967296"
    using h0 by (simp add: d)
  with T have "active_elements ?as + length (freelist ?as)
      \<le> length (rho ?as) div m_dofs_per_element ex_rc" by blast
  then have c2: "3 + length ([]::nat list) \<le> length [0, 0, 0, 0, 0, 0, 0, 0::real] div 2"
    by (simp add: d)
  have "distinct [4, 0, 2::nat] \<and> set [4, 0, 2::nat] = set [0, 4, 2]" by auto
  with T r2 have "freelist ?as = []
       \<longrightarrow> set [0, 2, 4] = (\<lambda>i. i * m_dofs_per_element ex_rc) ` {0..<length [0, 4, 2::nat]}"
    by blast
  then have c3: "set [0, 2, 4] = (\<lambda>i. i * 2) ` {0..<length [0, 4, 2::nat]}" by (simp add: d)
  show ?thesis using h1 pk h0 h5 h6 r2 c0 c1 c2 c3 by simp
qed

text \<open>
  C4 as the specification words it asks for the offsets \<open>0, dofs_per_element, \<dots>\<close>
  after releasing every live slab and allocating as many again. With two slabs of
  four released earlier, the two live slabs at offsets \<open>2\<close> and \<open>6\<close> come back at
  offsets \<open>2\<close> and \<open>4\<close>: the free list is reused last-in first-out, and offset
  \<open>0\<close> stays free.
\<close>

theorem allocator_first_offsets_counterexample:
  "live_only ex_rc [Alloc, Alloc, Alloc, Alloc, Dealloc 0, Dealloc 4] (ex_state0, [])
   \<and> run_ops ex_rc [Alloc, Alloc, Alloc, Alloc, Dealloc 0, Dealloc 4] (ex_state0, [])
       = Inr (\<lparr>active_elements = 2, freelist = [0, 2], advected_particles = [],
               rho = [0, 0, 0, 0, 0, 0, 0, 0]\<rparr>, [2, 6])
   \<and> run_ops ex_rc (map Dealloc [6, 2] @ replicate (length [6, 2::nat]) Alloc)
         (\<lparr>active_elements = 2, freelist = [0, 2], advected_particles = [],
               rho = [0, 0, 0, 0, 0, 0, 0, 0]\<rparr>, [2, 6])
       = Inr (\<lparr>active_elements = 2, freelist = [0], advected_particles = [],
               rho = [0, 0, 0, 0, 0, 0, 0, 0]\<rparr>, [2, 4])
   \<and> (0::nat) \<notin> set [2, 4]"
  by (simp add: alloc_eval)

text \<open>
  The bound on live and free slabs needs a vector that is not empty at the start:
  doubling the empty vector leaves it empty, and the first slab is handed out at
  offset \<open>0\<close> of a vector without elements.
\<close>

lemma allocate_on_empty_vector:
  "allocate_element ex_rc (ex_state0\<lparr>rho := []\<rparr>)
     = Inr (\<lparr>active_elements = 1, freelist = [], advected_particles = [], rho = []\<rparr>, 0)"
  by (simp add: alloc_eval)

section \<open>Upkeep passes over a patch\<close>

lemmas upkeep_eval = perform_reconstructor_upkeep_def upkeep_element_def retire_element_def
  kill_connection_def sever_slots_def element_l1_def charge_ratio_below_def inner_prod_def
  bindE_def vec_at_def vec_put_def subrange_def find_element_def
  ex_rc_def ex_ps_def ex_state2_def ex_el0_def ex_el1_def ex_einfo0_def ex_einfo1_def
  INVALID_ELEMENT_def u32_def Let_def deallocate_element_def

text \<open>
  C3 at a patch of two elements. The second element has \<open>min_life = 1\<close> and carries
  no charge, so a pass that visited it would count it down to \<open>0\<close> and retire it
  (its charge ratio \<open>0\<close> is below the threshold \<open>1/10\<close>). The pass counts the first
  element down from \<open>5\<close> to \<open>4\<close> and then steps over the second one: it is still in
  the patch, with \<open>min_life = 1\<close>.
\<close>

theorem upkeep_steps_over_second_element:
  "m_min_life ex_el1 = 1
   \<and> charge_ratio_below (element_l1 ex_rc (m_jacobian (m_element_info ex_el1)) [0, 0])
         \<bar>1\<bar> (m_kill_threshold ex_rc)
   \<and> perform_reconstructor_upkeep ex_rc ex_ps ex_state2
       = Inr (ex_state2\<lparr>advected_particles :=
               [\<lparr>m_shape_function = ex_shape,
                 m_elements = [ex_el0\<lparr>m_min_life := 4\<rparr>, ex_el1]\<rparr>]\<rparr>)"
  by (simp add: upkeep_eval)

section \<open>Faces whose connection names a missing element\<close>

lemma upt_0_2: "[0..<2] = [0, Suc 0]"
  by (simp add: numeral_2_eq_2)

lemmas flux_eval = treat_face_def resolve_face_def outflow_activation_def trace_max_def
  accumulate_active_def accumulate_inflow_def activate_opposite_def wire_neighbor_def
  grow_fluxes_def index_list_def mat_at_def int_coeff_of_def ext_coeff_of_def inflow_of_def
  inner_prod_def bindE_def vec_at_def vec_put_def subrange_def set_subrange_def find_element_def
  ex_rc_def ex_ps_def ex_el0_def ex_el1_def ex_einfo0_def ex_einfo1_def ex_mesh_def
  ex_locator_def ex_face_01_def ex_face_left_def ex_face_right_def ex_int_face_group_def
  ex_bdry_face_group_def ex_shape_def
  INVALID_ELEMENT_def max_faces_def u32_def Let_def allocate_element_def resize_def

text \<open>
  C9 at a patch whose element \<open>0\<close> names element \<open>1\<close> on its face \<open>1\<close>, with element
  \<open>1\<close> missing from the patch. The lookup of the opposite element gives the null
  pointer, and the source reads \<^verbatim>\<open>opp_el->m_start_index\<close> before it tests
  \<^verbatim>\<open>opp_el == 0\<close>: the face ends in a read through the null pointer, not in the
  run-time error that the test would raise, and so does the whole flux computation.
\<close>

theorem missing_opposite_is_read_through:
  "find_element (advected_particles ex_state_dangling ! 0) (m_connections ex_el0 ! 1) = None
   \<and> treat_face ex_rc [1] 4 0 0 1 (ex_state_dangling, [0, 0, 0, 0])
       = Inl (UndefinedBehaviour ''null pointer dereferenced'')
   \<and> calculate_fluxes ex_rc ex_ps ex_state_dangling [1]
       = Some (Inl (UndefinedBehaviour ''null pointer dereferenced''))"
  by (simp add: calculate_fluxes_def flux_particle_def flux_elements.simps flux_eval
      ex_state_dangling_def upt_0_2)

section \<open>Particles at rest\<close>


lemma inner_prod_zero:
  assumes "\<forall>x \<in> set v. x = 0"
  shows "inner_prod v n = 0"
  using assms unfolding inner_prod_def
proof (induction v arbitrary: n)
  case Nil
  then show ?case by simp
next
  case (Cons x v)
  then show ?case by (cases n) simp_all
qed

lemma coeffs_at_rest:
  "int_coeff_of fj 0 \<alpha> = 0" "ext_coeff_of fj 0 \<alpha> = 0" "inflow_of 0"
  by (simp_all add: int_coeff_of_def ext_coeff_of_def inflow_of_def)

lemma mapE_all:
  assumes "mapE f xs = Inr ys" and "\<And>x y. f x = Inr y \<Longrightarrow> P y"
  shows "\<forall>y \<in> set ys. P y"
  using assms(1)
proof (induction xs arbitrary: ys)
  case Nil
  then show ?case by simp
next
  case (Cons x xs)
  from Cons.prems obtain y ys' where y: "f x = Inr y" and r: "mapE f xs = Inr ys'"
    and ys: "ys = y # ys'"
    by (auto split: sum.splits)
  show ?case using Cons.IH[OF r] assms(2)[OF y] ys by simp
qed

lemma sum_list_zero: "\<forall>y \<in> set ys. y = (0::real) \<Longrightarrow> sum_list ys = 0"
  by (induction ys) simp_all

lemma vec_put_same:
  assumes "vec_at fl k = Inr old" "vec_put fl k old = Inr fl'"
  shows "fl' = fl"
  using assms by (auto simp: vec_at_def vec_put_def split: if_splits)

lemma accumulate_active_at_rest:
  assumes "accumulate_active rc rho_v b ob il oil 0 0 fl = Inr fl'"
  shows "fl' = fl"
proof (rule foldE_preserves[where P = "\<lambda>f. f = fl", OF _ refl assms[unfolded accumulate_active_def]])
  fix i :: nat and s s' :: "real list"
  assume step: "bindE (vec_at il i) (\<lambda>ki.
              bindE (mapE (\<lambda>j.
                       bindE (mat_at (m_face_mass_matrix rc) i j) (\<lambda>fmm_entry.
                       bindE (vec_at il j) (\<lambda>kj.
                       bindE (vec_at oil j) (\<lambda>okj.
                       bindE (vec_at rho_v (u32 (b + kj))) (\<lambda>a.
                       bindE (vec_at rho_v (u32 (ob + okj))) (\<lambda>b.
                         Inr (a * 0 * fmm_entry + b * 0 * fmm_entry)))))))
                     [0..<size1 (m_face_mass_matrix rc)]) (\<lambda>summands.
              bindE (vec_at s (u32 (b + ki))) (\<lambda>old.
                vec_put s (u32 (b + ki)) (old + sum_list summands)))) = Inr s'"
    and s: "s = fl"
  from step obtain ki summands old where
    m: "mapE (\<lambda>j.
                       bindE (mat_at (m_face_mass_matrix rc) i j) (\<lambda>fmm_entry.
                       bindE (vec_at il j) (\<lambda>kj.
                       bindE (vec_at oil j) (\<lambda>okj.
                       bindE (vec_at rho_v (u32 (b + kj))) (\<lambda>a.
                       bindE (vec_at rho_v (u32 (ob + okj))) (\<lambda>b.
                         Inr (a * 0 * fmm_entry + b * 0 * fmm_entry)))))))
                     [0..<size1 (m_face_mass_matrix rc)] = Inr summands"
    and old: "vec_at s (u32 (b + ki)) = Inr old"
    and put: "vec_put s (u32 (b + ki)) (old + sum_list summands) = Inr s'"
    by (auto simp: bindE_def split: sum.splits)
  have "\<forall>y \<in> set summands. y = 0"
    by (rule mapE_all[OF m]) (auto simp: bindE_def split: sum.splits)
  then have "sum_list summands = 0" by (rule sum_list_zero)
  with old put have "s' = s" using vec_put_same by simp
  then show "s' = fl" using s by simp
qed

lemma accumulate_inflow_at_rest:
  assumes "accumulate_inflow rc rho_v b il 0 fl = Inr fl'"
  shows "fl' = fl"
proof (rule foldE_preserves[where P = "\<lambda>f. f = fl", OF _ refl assms[unfolded accumulate_inflow_def]])
  fix i :: nat and s s' :: "real list"
  assume step: "bindE (vec_at il i) (\<lambda>ki.
              bindE (mapE (\<lambda>j.
                       bindE (vec_at il j) (\<lambda>kj.
                       bindE (vec_at rho_v (u32 (b + kj))) (\<lambda>a.
                       bindE (mat_at (m_face_mass_matrix rc) i j) (\<lambda>fmm_entry.
                         Inr (a * 0 * fmm_entry)))))
                     [0..<size1 (m_face_mass_matrix rc)]) (\<lambda>summands.
              bindE (vec_at s (u32 (b + ki))) (\<lambda>old.
                vec_put s (u32 (b + ki)) (old + sum_list summands)))) = Inr s'"
    and s: "s = fl"
  from step obtain ki summands old where
    m: "mapE (\<lambda>j.
                       bindE (vec_at il j) (\<lambda>kj.
                       bindE (vec_at rho_v (u32 (b + kj))) (\<lambda>a.
                       bindE (mat_at (m_face_mass_matrix rc) i j) (\<lambda>fmm_entry.
                         Inr (a * 0 * fmm_entry)))))
                     [0..<size1 (m_face_mass_matrix rc)] = Inr summands"
    and old: "vec_at s (u32 (b + ki)) = Inr old"
    and put: "vec_put s (u32 (b + ki)) (old + sum_list summands) = Inr s'"
    by (auto simp: bindE_def split: sum.splits)
  have "\<forall>y \<in> set summands. y = 0"
    by (rule mapE_all[OF m]) (auto simp: bindE_def split: sum.splits)
  then have "sum_list summands = 0" by (rule sum_list_zero)
  with old put have "s' = s" using vec_put_same by simp
  then show "s' = fl" using s by simp
qed

lemma treat_face_at_rest:
  assumes v: "\<forall>x \<in> set v. x = 0"
      and t: "treat_face rc v shape_peak pn i_el fn st = Inr st'"
  shows "st' = st"
proof -
  have ndv: "\<And>n. inner_prod v n = 0" by (rule inner_prod_zero[OF v])
  show ?thesis
    using t
    unfolding treat_face_def outflow_activation_def Let_def ndv coeffs_at_rest
    by (cases st)
       (auto simp: bindE_def coeffs_at_rest split: sum.splits if_splits option.splits
             dest!: accumulate_active_at_rest accumulate_inflow_at_rest)
qed

lemma faces_at_rest:
  assumes "\<forall>x \<in> set v. x = 0"
      and "foldE (treat_face rc v shape_peak pn i_el) fns st = Inr st'"
  shows "st' = st"
  by (rule foldE_preserves[where P = "\<lambda>s. s = st", OF _ refl assms(2)])
     (auto dest: treat_face_at_rest[OF assms(1)])

lemma flux_elements_at_rest:
  assumes v: "\<forall>x \<in> set v. x = 0"
  shows "flux_elements rc v shape_peak pn i_el st = Some (Inr st)
       \<or> (\<exists>e. flux_elements rc v shape_peak pn i_el st = Some (Inl e))"
proof (induction "length (m_elements (advected_particles (fst st) ! pn)) - i_el"
        arbitrary: i_el)
  case 0
  then show ?case by (subst flux_elements.simps) simp
next
  case (Suc k)
  then have lt: "i_el < length (m_elements (advected_particles (fst st) ! pn))" by simp
  show ?case
  proof (cases "foldE (treat_face rc v shape_peak pn i_el) [0..<m_faces_per_element rc] st")
    case (Inl e)
    then show ?thesis using lt by (subst flux_elements.simps) simp
  next
    case (Inr st')
    have st': "st' = st" by (rule faces_at_rest[OF v Inr])
    have k: "k = length (m_elements (advected_particles (fst st) ! pn)) - (i_el + 1)"
      using Suc.hyps(2) by simp
    have unfold: "flux_elements rc v shape_peak pn i_el st
                = flux_elements rc v shape_peak pn (i_el + 1) st"
      using lt Inr st' by (subst flux_elements.simps) simp
    show ?thesis unfolding unfold by (rule Suc.hyps(1)[OF k])
  qed
qed

lemma subrange_subset:
  assumes "subrange xs a b = Inr ys"
  shows "set ys \<subseteq> set xs"
proof -
  from assms have "ys = take (b - a) (drop a xs)"
    by (auto simp: subrange_def split: if_splits)
  then show ?thesis by (metis set_take_subset set_drop_subset subset_trans)
qed

lemma flux_particle_at_rest:
  assumes v: "\<forall>x \<in> set velocities. x = 0"
  shows "flux_particle rc ps velocities pn st = Some (Inr st)
       \<or> (\<exists>e. flux_particle rc ps velocities pn st = Some (Inl e))"
proof (cases "vec_at (charges ps) pn")
  case (Inl e)
  then show ?thesis by (simp add: flux_particle_def)
next
  case charge: (Inr charge)
  show ?thesis
  proof (cases "subrange velocities (vdim ps * pn) (vdim ps * (pn + 1))")
    case (Inl e)
    then show ?thesis using charge by (simp add: flux_particle_def)
  next
    case (Inr w)
    have "\<forall>x \<in> set w. x = 0" using subrange_subset[OF Inr] v by auto
    from flux_elements_at_rest[OF this] show ?thesis
      using charge Inr by (simp add: flux_particle_def)
  qed
qed

lemma for_particles_at_rest:
  assumes v: "\<forall>x \<in> set velocities. x = 0"
  shows "for_particles (flux_particle rc ps velocities) pns st = Some (Inr st)
       \<or> (\<exists>e. for_particles (flux_particle rc ps velocities) pns st = Some (Inl e))"
proof (induction pns)
  case Nil
  then show ?case by simp
next
  case (Cons pn pns)
  from flux_particle_at_rest[OF v, of rc ps pn st] show ?case
  proof
    assume "flux_particle rc ps velocities pn st = Some (Inr st)"
    then show ?thesis using Cons.IH by auto
  next
    assume "\<exists>e. flux_particle rc ps velocities pn st = Some (Inl e)"
    then show ?thesis by auto
  qed
qed

lemma calculate_fluxes_at_rest:
  assumes v: "\<forall>x \<in> set velocities. x = 0"
  shows "calculate_fluxes rc ps as velocities = Some (Inr (as, replicate (length (rho as)) 0))
       \<or> (\<exists>e. calculate_fluxes rc ps as velocities = Some (Inl e))"
  using for_particles_at_rest[OF v, of rc ps "[0..<length (advected_particles as)]"
          "(as, replicate (length (rho as)) 0)"]
  by (auto simp: calculate_fluxes_def)

lemma local_div_coeff_at_rest:
  assumes "\<forall>x \<in> set v. x = 0" "local_div_coeff dims v el loc_axis = Inr c"
  shows "c = 0"
proof -
  from assms(2) obtain summands where
    m: "mapE (\<lambda>glob_axis.
              bindE (vec_at v glob_axis) (\<lambda>vg.
              bindE (vec_at (m_inverse_map (m_element_info el)) loc_axis) (\<lambda>row.
              bindE (vec_at row glob_axis) (\<lambda>entry. Inr (- vg * entry)))))
            [0..<dims] = Inr summands" and c: "c = sum_list summands"
    by (auto simp: local_div_coeff_def bindE_def split: sum.splits)
  have "\<forall>y \<in> set summands. y = 0"
    by (rule mapE_all[OF m]) (use assms(1) in \<open>auto simp: bindE_def vec_at_def split: sum.splits if_splits\<close>)
  then show ?thesis unfolding c by (rule sum_list_zero)
qed

lemma set_subrange_same:
  assumes "subrange xs a b = Inr old" "set_subrange xs a b old = Inr xs'"
  shows "xs' = xs"
proof -
  from assms(1) have ab: "a \<le> b" "b \<le> length xs" and old: "old = take (b - a) (drop a xs)"
    by (auto simp: subrange_def split: if_splits)
  from assms(2) have "xs' = take a xs @ old @ drop b xs"
    by (auto simp: set_subrange_def split: if_splits)
  moreover have "take (b - a) (drop a xs) @ drop b xs = drop a xs"
    using ab by (metis append_take_drop_id drop_drop le_add_diff_inverse2)
  ultimately show ?thesis using old by simp
qed

lemma map2_add_zero:
  assumes "length old = length d"
  shows "map2 (\<lambda>x y. x + 0 * y) old d = (old::real list)"
  using assms by (induction old d rule: list_induct2) simp_all

lemma subrange_length:
  assumes "subrange xs a b = Inr ys"
  shows "length ys = b - a"
  using assms by (auto simp: subrange_def split: if_splits)

lemma local_div_element_at_rest:
  assumes v: "\<forall>x \<in> set v. x = 0"
      and l: "local_div_element rc dofs rst_derivs v el ld = Inr ld'"
  shows "ld' = ld"
proof (rule foldE_preserves[where P = "\<lambda>s. s = ld", OF _ refl l[unfolded local_div_element_def]])
  fix loc_axis :: nat and s s' :: "real list"
  assume step: "bindE (local_div_coeff (m_dimensions (m_mesh_data rc)) v el loc_axis) (\<lambda>coeff.
              bindE (subrange rst_derivs (loc_axis * dofs + m_start_index el)
                       (loc_axis * dofs + m_start_index el + m_dofs_per_element rc)) (\<lambda>d.
              bindE (subrange s (m_start_index el)
                       (m_start_index el + m_dofs_per_element rc)) (\<lambda>old.
                set_subrange s (m_start_index el) (m_start_index el + m_dofs_per_element rc)
                  (map2 (\<lambda>x y. x + coeff * y) old d)))) = Inr s'"
    and s: "s = ld"
  from step obtain coeff d old where
    c: "local_div_coeff (m_dimensions (m_mesh_data rc)) v el loc_axis = Inr coeff"
    and d: "subrange rst_derivs (loc_axis * dofs + m_start_index el)
                       (loc_axis * dofs + m_start_index el + m_dofs_per_element rc) = Inr d"
    and old: "subrange s (m_start_index el) (m_start_index el + m_dofs_per_element rc) = Inr old"
    and put: "set_subrange s (m_start_index el) (m_start_index el + m_dofs_per_element rc)
                  (map2 (\<lambda>x y. x + coeff * y) old d) = Inr s'"
    by (auto simp: bindE_def split: sum.splits)
  have c0: "coeff = 0" by (rule local_div_coeff_at_rest[OF v c])
  have "length old = length d"
    using subrange_length[OF d] subrange_length[OF old] by simp
  then have "map2 (\<lambda>x y. x + coeff * y) old d = old" unfolding c0 by (rule map2_add_zero)
  with put have "set_subrange s (m_start_index el) (m_start_index el + m_dofs_per_element rc) old = Inr s'"
    by simp
  from set_subrange_same[OF old this] show "s' = ld" using s by simp
qed

lemma bindE_Inr:
  assumes "bindE m f = Inr y"
  obtains x where "m = Inr x" "f x = Inr y"
  using assms by (cases m) (simp_all add: bindE_def)

lemma calculate_local_div_at_rest:
  assumes v: "\<forall>x \<in> set velocities. x = 0"
      and l: "calculate_local_div rc ps as velocities = Inr (as', ld)"
  shows "as' = as \<and> ld = replicate (length (rho as)) 0"
proof -
  from l[unfolded calculate_local_div_def Let_def] obtain rst_derivs where
    r: "bindE (foldE (\<lambda>pn local_div.
                  bindE (subrange velocities (vdim ps * pn) (vdim ps * (pn + 1))) (\<lambda>v.
                    foldE (local_div_element rc (length (rho as)) rst_derivs v)
                      (m_elements (advected_particles as ! pn)) local_div))
                [0..<length (advected_particles as)] (replicate (length (rho as)) 0))
          (\<lambda>local_div. Inr (as, local_div)) = Inr (as', ld)"
    by (rule bindE_Inr)
  from r obtain ld0 where
    f: "foldE (\<lambda>pn local_div.
                  bindE (subrange velocities (vdim ps * pn) (vdim ps * (pn + 1))) (\<lambda>v.
                    foldE (local_div_element rc (length (rho as)) rst_derivs v)
                      (m_elements (advected_particles as ! pn)) local_div))
                [0..<length (advected_particles as)] (replicate (length (rho as)) 0) = Inr ld0"
    and res: "Inr (as, ld0) = (Inr (as', ld) :: error + (advective_state \<times> real list))"
    by (rule bindE_Inr)
  from res have as': "as' = as" and ld0: "ld0 = ld" by simp_all
  have "ld0 = replicate (length (rho as)) 0"
  proof (rule foldE_preserves[where P = "\<lambda>s. s = replicate (length (rho as)) 0", OF _ refl f])
    fix pn :: nat and s s' :: "real list"
    assume step: "bindE (subrange velocities (vdim ps * pn) (vdim ps * (pn + 1))) (\<lambda>v.
                    foldE (local_div_element rc (length (rho as)) rst_derivs v)
                      (m_elements (advected_particles as ! pn)) s) = Inr s'"
      and s: "s = replicate (length (rho as)) 0"
    from step obtain w where w: "subrange velocities (vdim ps * pn) (vdim ps * (pn + 1)) = Inr w"
      and e: "foldE (local_div_element rc (length (rho as)) rst_derivs w)
                      (m_elements (advected_particles as ! pn)) s = Inr s'"
      by (rule bindE_Inr)
    have w0: "\<forall>x \<in> set w. x = 0" using subrange_subset[OF w] v by auto
    have "s' = s"
      by (rule foldE_preserves[where P = "\<lambda>t. t = s", OF _ refl e])
         (auto dest: local_div_element_at_rest[OF w0])
    then show "s' = replicate (length (rho as)) 0" using s by simp
  qed
  then show ?thesis using as' ld0 by simp
qed

text \<open>
  C7. When every entry of the velocity vector is zero, the flux computation ends
  (with a result or with one of its errors); whenever it returns, it returns the
  state it was given, so no element has been activated, and the zero vector of the
  size of \<open>rho\<close>. Whenever the local divergence returns, it returns that zero vector
  too.
\<close>

theorem zero_velocity_zero_rates:
  assumes "\<forall>x \<in> set velocities. x = 0"
  shows "(\<exists>r. calculate_fluxes rc ps as velocities = Some r)
     \<and> (\<forall>as' fluxes. calculate_fluxes rc ps as velocities = Some (Inr (as', fluxes))
           \<longrightarrow> as' = as \<and> fluxes = replicate (length (rho as)) 0)
     \<and> (\<forall>as' local_div. calculate_local_div rc ps as velocities = Inr (as', local_div)
           \<longrightarrow> local_div = replicate (length (rho as)) 0)"
  using calculate_fluxes_at_rest[OF assms, of rc ps as] calculate_local_div_at_rest[OF assms]
  by auto

lemmas div_eval = calculate_local_div_def local_div_element_def local_div_coeff_def
  batched_product_def gemm_TN_def active_contiguous_elements_def
  apply_elementwise_inverse_mass_matrix_def jacobian_scaling_def vec_minus_def vec_plus_def
  get_advective_particle_rhs_def apply_advective_particle_rhs_def


theorem zero_velocity_zero_rates_witness:
  "calculate_fluxes ex_rc ex_ps ex_state2 [0] = Some (Inr (ex_state2, [0, 0, 0, 0]))
   \<and> calculate_local_div ex_rc ex_ps ex_state2 [0] = Inr (ex_state2, [0, 0, 0, 0])"
proof -
  have h: "\<forall>x \<in> set [0::real]. x = 0" by simp
  have f: "calculate_fluxes ex_rc ex_ps ex_state2 [0] = Some (Inr (ex_state2, [0, 0, 0, 0]))"
    using zero_velocity_zero_rates[OF h, of ex_rc ex_ps ex_state2]
    by (simp add: calculate_fluxes_def flux_particle_def flux_elements.simps flux_eval
        ex_state2_def upt_0_2)
  have d: "calculate_local_div ex_rc ex_ps ex_state2 [0] = Inr (ex_state2, [0, 0, 0, 0])"
    by (simp add: div_eval flux_eval ex_state2_def upt_0_2)
  show ?thesis using f d by simp
qed

section \<open>Activation across outflow faces\<close>


lemma allocate_element_particles:
  assumes "allocate_element rc as = Inr (as', start)"
  shows "advected_particles as' = advected_particles as"
  using assms
  by (auto simp: allocate_element_def Let_def resize_def split: if_splits)

lemma wire_neighbor_length:
  assumes "wire_neighbor rc opp_en nf st = Inr st'"
  shows "length (m_elements (snd st')) = length (m_elements (snd st))"
  using assms
  by (auto simp: wire_neighbor_def Let_def bindE_def split: option.splits sum.splits if_splits)

lemma activate_opposite_length:
  assumes a: "activate_opposite rc pn opp_en st = Inr st'"
      and pn: "pn < length (advected_particles (fst st))"
  shows "length (m_elements (advected_particles (fst st') ! pn))
       = Suc (length (m_elements (advected_particles (fst st) ! pn)))"
proof -
  from a[unfolded activate_opposite_def] obtain opp_einfo where
    a1: "bindE (allocate_element rc (fst st)) (\<lambda>allocated.
       let as1 = fst allocated; start = snd allocated
       in bindE (set_subrange (rho as1) start (u32 (start + m_dofs_per_element rc))
                   (replicate (m_dofs_per_element rc) 0)) (\<lambda>rho1.
          bindE (grow_fluxes (length rho1) (snd st)) (\<lambda>fluxes1.
            let as2 = as1\<lparr>rho := rho1\<rparr>;
                opp_element = \<lparr>m_element_info = opp_einfo,
                               m_connections = replicate max_faces INVALID_ELEMENT,
                               m_start_index = start, m_min_life = 10\<rparr>
            in bindE (foldE (wire_neighbor rc opp_en)
                        (zip [0..<length (m_faces opp_einfo)] (m_faces opp_einfo))
                        (opp_element, advected_particles as2 ! pn)) (\<lambda>wired.
                 Inr (as2\<lparr>advected_particles := (advected_particles as2)
                        [pn := (snd wired)\<lparr>m_elements := m_elements (snd wired) @ [fst wired]\<rparr>]\<rparr>,
                      fluxes1))))) = Inr st'"
    by (rule bindE_Inr)
  from a1 obtain allocated where al: "allocate_element rc (fst st) = Inr allocated"
    and a2: "(let as1 = fst allocated; start = snd allocated
       in bindE (set_subrange (rho as1) start (u32 (start + m_dofs_per_element rc))
                   (replicate (m_dofs_per_element rc) 0)) (\<lambda>rho1.
          bindE (grow_fluxes (length rho1) (snd st)) (\<lambda>fluxes1.
            let as2 = as1\<lparr>rho := rho1\<rparr>;
                opp_element = \<lparr>m_element_info = opp_einfo,
                               m_connections = replicate max_faces INVALID_ELEMENT,
                               m_start_index = start, m_min_life = 10\<rparr>
            in bindE (foldE (wire_neighbor rc opp_en)
                        (zip [0..<length (m_faces opp_einfo)] (m_faces opp_einfo))
                        (opp_element, advected_particles as2 ! pn)) (\<lambda>wired.
                 Inr (as2\<lparr>advected_particles := (advected_particles as2)
                        [pn := (snd wired)\<lparr>m_elements := m_elements (snd wired) @ [fst wired]\<rparr>]\<rparr>,
                      fluxes1))))) = Inr st'"
    by (rule bindE_Inr)
  obtain as1 start where alloc: "allocated = (as1, start)" by (cases allocated)
  have ps1: "advected_particles as1 = advected_particles (fst st)"
    using allocate_element_particles al alloc by simp
  from a2[unfolded alloc Let_def fst_conv snd_conv] obtain rho1 where
    a3: "bindE (grow_fluxes (length rho1) (snd st)) (\<lambda>fluxes1.
            bindE (foldE (wire_neighbor rc opp_en)
                        (zip [0..<length (m_faces opp_einfo)] (m_faces opp_einfo))
                        (\<lparr>m_element_info = opp_einfo,
                               m_connections = replicate max_faces INVALID_ELEMENT,
                               m_start_index = start, m_min_life = 10\<rparr>,
                         advected_particles (as1\<lparr>rho := rho1\<rparr>) ! pn)) (\<lambda>wired.
                 Inr (as1\<lparr>rho := rho1\<rparr>\<lparr>advected_particles := (advected_particles (as1\<lparr>rho := rho1\<rparr>))
                        [pn := (snd wired)\<lparr>m_elements := m_elements (snd wired) @ [fst wired]\<rparr>]\<rparr>,
                      fluxes1))) = Inr st'"
    by (rule bindE_Inr)
  from a3 obtain fluxes1 where
    a4: "bindE (foldE (wire_neighbor rc opp_en)
                        (zip [0..<length (m_faces opp_einfo)] (m_faces opp_einfo))
                        (\<lparr>m_element_info = opp_einfo,
                               m_connections = replicate max_faces INVALID_ELEMENT,
                               m_start_index = start, m_min_life = 10\<rparr>,
                         advected_particles (as1\<lparr>rho := rho1\<rparr>) ! pn)) (\<lambda>wired.
                 Inr (as1\<lparr>rho := rho1\<rparr>\<lparr>advected_particles := (advected_particles (as1\<lparr>rho := rho1\<rparr>))
                        [pn := (snd wired)\<lparr>m_elements := m_elements (snd wired) @ [fst wired]\<rparr>]\<rparr>,
                      fluxes1)) = Inr st'"
    by (rule bindE_Inr)
  from a4 obtain wired where
    w: "foldE (wire_neighbor rc opp_en)
                        (zip [0..<length (m_faces opp_einfo)] (m_faces opp_einfo))
                        (\<lparr>m_element_info = opp_einfo,
                               m_connections = replicate max_faces INVALID_ELEMENT,
                               m_start_index = start, m_min_life = 10\<rparr>,
                         advected_particles (as1\<lparr>rho := rho1\<rparr>) ! pn) = Inr wired"
    and st': "Inr (as1\<lparr>rho := rho1\<rparr>\<lparr>advected_particles := (advected_particles (as1\<lparr>rho := rho1\<rparr>))
                        [pn := (snd wired)\<lparr>m_elements := m_elements (snd wired) @ [fst wired]\<rparr>]\<rparr>,
                      fluxes1) = (Inr st' :: error + (advective_state \<times> real list))"
    by (rule bindE_Inr)
  have len: "length (m_elements (snd wired))
           = length (m_elements (advected_particles (fst st) ! pn))"
    by (rule foldE_preserves[where P = "\<lambda>s. length (m_elements (snd s))
              = length (m_elements (advected_particles (fst st) ! pn))", OF _ _ w])
       (simp_all add: wire_neighbor_length ps1)
  from st' have "advected_particles (fst st') = (advected_particles (fst st))
                        [pn := (snd wired)\<lparr>m_elements := m_elements (snd wired) @ [fst wired]\<rparr>]"
    using ps1 by auto
  then show ?thesis using pn len by simp
qed






lemma map_update_same: "(map f xs)[k := f (xs ! k)] = map f xs"
proof (cases "k < length xs")
  case True
  then show ?thesis by (simp add: list_update_same_conv)
next
  case False
  then show ?thesis by (simp add: list_update_beyond)
qed




lemma neighbour_activated_grows:
  assumes "neighbour_activated rc pn opp_en as as'"
  shows "length (m_elements (advected_particles as' ! pn))
       = Suc (length (m_elements (advected_particles as ! pn)))"
proof -
  from assms have "map m_element_info (m_elements (advected_particles as' ! pn))
       = map m_element_info (m_elements (advected_particles as ! pn))
           @ [mesh_element_info (m_mesh_data rc) ! opp_en]"
    by (simp add: neighbour_activated_def)
  then have "length (map m_element_info (m_elements (advected_particles as' ! pn)))
       = length (map m_element_info (m_elements (advected_particles as ! pn))
           @ [mesh_element_info (m_mesh_data rc) ! opp_en])" by simp
  then show ?thesis by simp
qed







lemma activation_rule_face_iff:
  assumes a: "activation_rule_face rc v shape_peak pn i_el fn st st'"
      and r: "resolve_face rc (m_id (m_element_info (m_elements (advected_particles (fst st) ! pn) ! i_el))) fn
              = Inr fv"
      and c: "vec_at (m_connections (m_elements (advected_particles (fst st) ! pn) ! i_el)) fn
              = Inr connection"
  shows "length (m_elements (advected_particles (fst st') ! pn))
           = Suc (length (m_elements (advected_particles (fst st) ! pn)))
         \<longleftrightarrow> connection = INVALID_ELEMENT
              \<and> \<not> inflow_of (inner_prod v (normal (flux_face fv)))
              \<and> \<not> is_boundary fv
              \<and> Max (insert 0 ((\<lambda>i. \<bar>rho (fst st) ! u32 (m_start_index
                                  (m_elements (advected_particles (fst st) ! pn) ! i_el)
                                  + idx_list fv ! i)\<bar>) ` {0..<size1 (m_face_mass_matrix rc)}))
                  > m_activation_threshold rc * \<bar>shape_peak\<bar>"
  using a unfolding activation_rule_face_def Let_def r c
  by (auto dest: neighbour_activated_grows split: if_splits)



lemma replicate_2: "replicate 2 x = [x, x]"
  by (simp add: numeral_2_eq_2)


section \<open>What the right-hand-side stage changes\<close>


lemma set_subrange_length:
  assumes "set_subrange xs a b ys = Inr xs'"
  shows "length xs' = length xs"
  using assms by (auto simp: set_subrange_def split: if_splits)

lemma fold_update_length:
  "length (fold (\<lambda>i c. c[g i := h i c]) is c) = length c"
  by (induction "is" arbitrary: c) simp_all

lemma gemm_TN_length:
  assumes "gemm_TN m n k a lda b ldb c c_off ldc = Inr c'"
  shows "length c' = length c"
proof -
  have inner: "\<And>j c1. length (fold (\<lambda>i c2.
                    c2[c_off + j * ldc + i :=
                         (\<Sum>l\<leftarrow>[0..<k]. a ! (i * lda + l) * b ! (j * ldb + l))
                         + c2 ! (c_off + j * ldc + i)])
                    [0..<m] c1) = length c1"
    by (rule fold_update_length)
  have outer: "\<And>js c0. length (fold (\<lambda>j c1.
                  fold (\<lambda>i c2.
                    c2[c_off + j * ldc + i :=
                         (\<Sum>l\<leftarrow>[0..<k]. a ! (i * lda + l) * b ! (j * ldb + l))
                         + c2 ! (c_off + j * ldc + i)])
                    [0..<m] c1) js c0) = length c0"
  proof -
    fix js c0
    show "length (fold (\<lambda>j c1.
                  fold (\<lambda>i c2.
                    c2[c_off + j * ldc + i :=
                         (\<Sum>l\<leftarrow>[0..<k]. a ! (i * lda + l) * b ! (j * ldb + l))
                         + c2 ! (c_off + j * ldc + i)])
                    [0..<m] c1) js c0) = length c0"
      by (induction js arbitrary: c0) (simp_all add: inner)
  qed
  from assms show ?thesis
    unfolding gemm_TN_def by (auto simp: outer split: if_splits)
qed

lemma local_div_element_length:
  assumes "local_div_element rc dofs rst_derivs v el ld = Inr ld'"
  shows "length ld' = length ld"
proof (rule foldE_preserves[where P = "\<lambda>s. length s = length ld",
        OF _ refl assms[unfolded local_div_element_def]])
  fix loc_axis :: nat and s s' :: "real list"
  assume step: "bindE (local_div_coeff (m_dimensions (m_mesh_data rc)) v el loc_axis) (\<lambda>coeff.
              bindE (subrange rst_derivs (loc_axis * dofs + m_start_index el)
                       (loc_axis * dofs + m_start_index el + m_dofs_per_element rc)) (\<lambda>d.
              bindE (subrange s (m_start_index el)
                       (m_start_index el + m_dofs_per_element rc)) (\<lambda>old.
                set_subrange s (m_start_index el) (m_start_index el + m_dofs_per_element rc)
                  (map2 (\<lambda>x y. x + coeff * y) old d)))) = Inr s'"
    and s: "length s = length ld"
  from step obtain ys where
    "set_subrange s (m_start_index el) (m_start_index el + m_dofs_per_element rc) ys = Inr s'"
    by (auto simp: bindE_def split: sum.splits)
  from set_subrange_length[OF this] s show "length s' = length ld" by simp
qed

lemma calculate_local_div_frame:
  assumes l: "calculate_local_div rc ps as velocities = Inr (as', ld)"
  shows "as' = as \<and> length ld = length (rho as)"
proof -
  from l[unfolded calculate_local_div_def Let_def] obtain rst_derivs where
    r: "bindE (foldE (\<lambda>pn local_div.
                  bindE (subrange velocities (vdim ps * pn) (vdim ps * (pn + 1))) (\<lambda>v.
                    foldE (local_div_element rc (length (rho as)) rst_derivs v)
                      (m_elements (advected_particles as ! pn)) local_div))
                [0..<length (advected_particles as)] (replicate (length (rho as)) 0))
          (\<lambda>local_div. Inr (as, local_div)) = Inr (as', ld)"
    by (rule bindE_Inr)
  from r obtain ld0 where
    f: "foldE (\<lambda>pn local_div.
                  bindE (subrange velocities (vdim ps * pn) (vdim ps * (pn + 1))) (\<lambda>v.
                    foldE (local_div_element rc (length (rho as)) rst_derivs v)
                      (m_elements (advected_particles as ! pn)) local_div))
                [0..<length (advected_particles as)] (replicate (length (rho as)) 0) = Inr ld0"
    and res: "Inr (as, ld0) = (Inr (as', ld) :: error + (advective_state \<times> real list))"
    by (rule bindE_Inr)
  from res have as': "as' = as" and ld0: "ld0 = ld" by simp_all
  have "length ld0 = length (rho as)"
  proof (rule foldE_preserves[where P = "\<lambda>s. length s = length (rho as)", OF _ _ f])
    fix pn :: nat and s s' :: "real list"
    assume step: "bindE (subrange velocities (vdim ps * pn) (vdim ps * (pn + 1))) (\<lambda>v.
                    foldE (local_div_element rc (length (rho as)) rst_derivs v)
                      (m_elements (advected_particles as ! pn)) s) = Inr s'"
      and s: "length s = length (rho as)"
    from step obtain w where
      e: "foldE (local_div_element rc (length (rho as)) rst_derivs w)
                      (m_elements (advected_particles as ! pn)) s = Inr s'"
      by (rule bindE_Inr)
    have "length s' = length s"
      by (rule foldE_preserves[where P = "\<lambda>t. length t = length s", OF _ refl e])
         (auto dest: local_div_element_length)
    then show "length s' = length (rho as)" using s by simp
  next
    show "length (replicate (length (rho as)) (0::real)) = length (rho as)" by simp
  qed
  then show ?thesis using as' ld0 by simp
qed

lemma jacobian_scaling_length:
  assumes "jacobian_scaling rc el r = Inr r'"
  shows "length r' = length r"
  using assms unfolding jacobian_scaling_def
  by (auto simp: bindE_def split: if_splits sum.splits dest: set_subrange_length)

lemma inverse_mass_frame:
  assumes l: "apply_elementwise_inverse_mass_matrix rc as operand = Inr (as', r)"
  shows "as' = as \<and> length r = length (rho as)"
proof -
  from l[unfolded apply_elementwise_inverse_mass_matrix_def] obtain result where
    g: "batched_product rc (m_inverse_mass_matrix rc) as operand
              (replicate (length (rho as)) 0) 0 = Inr result"
    and r1: "bindE (foldE (\<lambda>p r. foldE (jacobian_scaling rc) (m_elements p) r)
              (advected_particles as) result) (\<lambda>scaled. Inr (as, scaled)) = Inr (as', r)"
    by (rule bindE_Inr)
  from r1 obtain scaled where
    f: "foldE (\<lambda>p r. foldE (jacobian_scaling rc) (m_elements p) r)
              (advected_particles as) result = Inr scaled"
    and res: "Inr (as, scaled) = (Inr (as', r) :: error + (advective_state \<times> real list))"
    by (rule bindE_Inr)
  have lr: "length result = length (rho as)"
    using gemm_TN_length[OF g[unfolded batched_product_def]] by simp
  have "length scaled = length (rho as)"
  proof (rule foldE_preserves[where P = "\<lambda>s. length s = length (rho as)", OF _ lr f])
    fix p :: advected_particle and s s' :: "real list"
    assume e: "foldE (jacobian_scaling rc) (m_elements p) s = Inr s'"
      and s: "length s = length (rho as)"
    have "length s' = length s"
      by (rule foldE_preserves[where P = "\<lambda>t. length t = length s", OF _ refl e])
         (auto dest: jacobian_scaling_length)
    then show "length s' = length (rho as)" using s by simp
  qed
  then show ?thesis using res by simp
qed

text \<open>
  C10. The local divergence and the mass inversion return the state they were given,
  together with a vector of the size of \<open>rho\<close>. The state after the whole
  right-hand-side stage is the state the flux computation returned: of the three
  operations only the flux computation changes it.
\<close>

theorem rhs_stage_frame:
  "(\<forall>as' local_div. calculate_local_div rc ps as velocities = Inr (as', local_div)
       \<longrightarrow> as' = as \<and> length local_div = length (rho as))
   \<and> (\<forall>as' result. apply_elementwise_inverse_mass_matrix rc as operand = Inr (as', result)
       \<longrightarrow> as' = as \<and> length result = length (rho as))
   \<and> (\<forall>as' rhs. get_advective_particle_rhs rc ps as velocities = Some (Inr (as', rhs))
       \<longrightarrow> (\<exists>fluxes. calculate_fluxes rc ps as velocities = Some (Inr (as', fluxes))))"
proof -
  have third: "\<exists>fluxes. calculate_fluxes rc ps as velocities = Some (Inr (as', fluxes))"
    if g: "get_advective_particle_rhs rc ps as velocities = Some (Inr (as', rhs))" for as' rhs
  proof -
    from g obtain flux_result where
      cf: "calculate_fluxes rc ps as velocities = Some (Inr flux_result)"
      and b: "bindE (calculate_local_div rc ps (fst flux_result) velocities) (\<lambda>div_result.
                bindE (apply_elementwise_inverse_mass_matrix rc (fst div_result)
                         (snd flux_result)) (\<lambda>minv_result.
                bindE (vec_minus (snd div_result) (snd minv_result)) (\<lambda>rhs.
                  Inr (fst minv_result, rhs)))) = Inr (as', rhs)"
      unfolding get_advective_particle_rhs_def
      by (auto split: option.splits sum.splits)
    from b obtain div_result where
      d: "calculate_local_div rc ps (fst flux_result) velocities = Inr div_result"
      and b2: "bindE (apply_elementwise_inverse_mass_matrix rc (fst div_result)
                         (snd flux_result)) (\<lambda>minv_result.
                bindE (vec_minus (snd div_result) (snd minv_result)) (\<lambda>rhs.
                  Inr (fst minv_result, rhs))) = Inr (as', rhs)"
      by (rule bindE_Inr)
    from b2 obtain minv_result where
      m: "apply_elementwise_inverse_mass_matrix rc (fst div_result) (snd flux_result)
            = Inr minv_result"
      and b3: "bindE (vec_minus (snd div_result) (snd minv_result)) (\<lambda>rhs.
                  Inr (fst minv_result, rhs)) = Inr (as', rhs)"
      by (rule bindE_Inr)
    from b3 have as': "as' = fst minv_result"
      by (auto simp: bindE_def split: sum.splits)
    have "fst div_result = fst flux_result"
      using calculate_local_div_frame[of rc ps "fst flux_result" velocities
              "fst div_result" "snd div_result"] d by simp
    moreover have "fst minv_result = fst div_result"
      using inverse_mass_frame[of rc "fst div_result" "snd flux_result"
              "fst minv_result" "snd minv_result"] m by simp
    ultimately have "flux_result = (as', snd flux_result)" using as' by simp
    then show ?thesis using cf by metis
  qed
  show ?thesis
    using calculate_local_div_frame inverse_mass_frame third by blast
qed


text \<open>
  A stage in which the flux computation activates element \<open>1\<close>: the two other
  operations run on the state it leaves behind and return it.
\<close>

theorem rhs_stage_frame_witness:
  "calculate_fluxes ex_rc ex_ps (ex_state_alone 1) [1]
     = Some (Inr (ex_state_activated, [1, 0, - 1, 0]))
   \<and> calculate_local_div ex_rc ex_ps ex_state_activated [1]
     = Inr (ex_state_activated, [0, 0, 0, 0])
   \<and> apply_elementwise_inverse_mass_matrix ex_rc ex_state_activated [1, 0, - 1, 0]
     = Inr (ex_state_activated, [2, - 1, - 2, 1])
   \<and> get_advective_particle_rhs ex_rc ex_ps (ex_state_alone 1) [1]
     = Some (Inr (ex_state_activated, [- 2, 1, 2, - 1]))
   \<and> active_elements ex_state_activated \<noteq> active_elements (ex_state_alone 1)"
proof -
  note ev = div_eval calculate_fluxes_def flux_particle_def flux_elements.simps flux_eval
      ex_state_alone_def ex_el0_alone_def ex_state_activated_def ex_state2_def
      upt_0_2 replicate_2 replicate_4
  have f: "calculate_fluxes ex_rc ex_ps (ex_state_alone 1) [1]
     = Some (Inr (ex_state_activated, [1, 0, - 1, 0]))"
    by (simp add: ev)
  have d: "calculate_local_div ex_rc ex_ps ex_state_activated [1]
     = Inr (ex_state_activated, [0, 0, 0, 0])"
    by (simp add: ev)
  have m: "apply_elementwise_inverse_mass_matrix ex_rc ex_state_activated [1, 0, - 1, 0]
     = Inr (ex_state_activated, [2, - 1, - 2, 1])"
    by (simp add: ev)
  have g: "get_advective_particle_rhs ex_rc ex_ps (ex_state_alone 1) [1]
     = Some (Inr (ex_state_activated, [- 2, 1, 2, - 1]))"
    unfolding get_advective_particle_rhs_def f using d m
    by (simp add: bindE_def vec_minus_def)
  have n: "active_elements ex_state_activated \<noteq> active_elements (ex_state_alone 1)"
    by (simp add: ex_state_activated_def ex_state2_def ex_state_alone_def)
  note T = rhs_stage_frame[of ex_rc ex_ps "ex_state_alone 1" "[1]" "[1, 0, - 1, 0]"]
  show ?thesis using T f d m g n by simp
qed


section \<open>The update of the density\<close>

text \<open>
  The entries that \<^verbatim>\<open>gemm\<close> writes lie at pairwise different positions, so every one
  of them is written once, from the value the output vector had before the call.
\<close>

lemma fold_product:
  "fold (\<lambda>j. fold (\<lambda>i. f j i) ys) xs c = fold (\<lambda>ji. f (fst ji) (snd ji)) (List.product xs ys) c"
proof (induction xs arbitrary: c)
  case Nil
  then show ?case by simp
next
  case (Cons x xs)
  have "fold (\<lambda>ji. f (fst ji) (snd ji)) (map (Pair x) ys) c = fold (\<lambda>i. f x i) ys c"
    by (simp add: fold_map comp_def)
  then show ?case using Cons.IH by simp
qed

lemma fold_add_other:
  assumes "p \<notin> g ` set xs"
  shows "fold (\<lambda>x c. c[g x := h x + c ! g x]) xs c ! p = c ! p"
  using assms by (induction xs arbitrary: c) auto

lemma fold_add_length:
  "length (fold (\<lambda>x c. c[g x := h x + c ! g x]) xs c) = length c"
  by (induction xs arbitrary: c) simp_all

lemma fold_add_at:
  assumes "distinct (map g xs)" "x \<in> set xs" "g x < length c"
  shows "fold (\<lambda>x c. c[g x := h x + c ! g x]) xs c ! g x = h x + c ! g x"
  using assms
proof (induction xs arbitrary: c)
  case Nil
  then show ?case by simp
next
  case (Cons y ys)
  show ?case
  proof (cases "g y = g x")
    case True
    then have notin: "g x \<notin> g ` set ys" using Cons.prems(1) by auto
    have hy: "x = y"
    proof (rule ccontr)
      assume "x \<noteq> y"
      then have "x \<in> set ys" using Cons.prems(2) by simp
      then show False using notin by auto
    qed
    show ?thesis
      using fold_add_other[OF notin, of h "c[g y := h y + c ! g y]"] Cons.prems(3) hy by simp
  next
    case False
    then have xin: "x \<in> set ys" using Cons.prems(2) by auto
    have d: "distinct (map g ys)" using Cons.prems(1) by simp
    have l: "g x < length (c[g y := h y + c ! g y])" using Cons.prems(3) by simp
    show ?thesis using Cons.IH[OF d xin l] False by simp
  qed
qed

lemma slab_position_inj:
  assumes "(i::nat) < m" "i' < m" "m \<le> ldc" "j * ldc + i = j' * ldc + i'"
  shows "j = j' \<and> i = i'"
proof -
  have i: "i < ldc" and i': "i' < ldc" using assms by simp_all
  have "(j * ldc + i) div ldc = j" using i by simp
  moreover have "(j' * ldc + i') div ldc = j'" using i' by simp
  ultimately have jj: "j = j'" using assms(4) by simp
  then show ?thesis using assms(4) by simp
qed

lemma distinct_slab_positions:
  assumes "m \<le> ldc"
  shows "distinct (map (\<lambda>ji. c_off + fst ji * ldc + snd ji) (List.product [0..<n] [0..<m]))"
proof -
  have "inj_on (\<lambda>ji. c_off + fst ji * ldc + snd ji) (set (List.product [0..<n] [0..<m]))"
  proof (rule inj_onI)
    fix x y :: "nat \<times> nat"
    assume x: "x \<in> set (List.product [0..<n] [0..<m])"
       and y: "y \<in> set (List.product [0..<n] [0..<m])"
       and e: "c_off + fst x * ldc + snd x = c_off + fst y * ldc + snd y"
    have sx: "snd x < m" using x by auto
    have sy: "snd y < m" using y by auto
    from e have e': "fst x * ldc + snd x = fst y * ldc + snd y" by simp
    from slab_position_inj[OF sx sy assms e'] show "x = y" by (simp add: prod_eq_iff)
  qed
  then show ?thesis by (simp add: distinct_map distinct_product)
qed

lemma gemm_TN_entry:
  assumes g: "gemm_TN m n k a lda b ldb c c_off ldc = Inr c'"
      and j: "j < n" and i: "i < m"
  shows "c' ! (c_off + j * ldc + i)
       = (\<Sum>l\<leftarrow>[0..<k]. a ! (i * lda + l) * b ! (j * ldb + l)) + c ! (c_off + j * ldc + i)"
proof (cases "k = 0")
  case True
  with g have "c' = c" by (auto simp: gemm_TN_def split: if_splits)
  then show ?thesis using True by simp
next
  case False
  let ?g = "\<lambda>ji. c_off + fst ji * ldc + snd ji"
  let ?h = "\<lambda>ji. (\<Sum>l\<leftarrow>[0..<k]. a ! (snd ji * lda + l) * b ! (fst ji * ldb + l))"
  from g False j i have le: "m \<le> ldc" and len: "c_off + (n - 1) * ldc + m \<le> length c"
    and c': "c' = fold (\<lambda>j c1.
                  fold (\<lambda>i c2.
                    c2[c_off + j * ldc + i :=
                         (\<Sum>l\<leftarrow>[0..<k]. a ! (i * lda + l) * b ! (j * ldb + l))
                         + c2 ! (c_off + j * ldc + i)])
                    [0..<m] c1)
                  [0..<n] c"
    by (auto simp: gemm_TN_def split: if_splits)
  have c'': "c' = fold (\<lambda>ji c2. c2[?g ji := ?h ji + c2 ! ?g ji]) (List.product [0..<n] [0..<m]) c"
    unfolding c' by (rule fold_product)
  have mem: "(j, i) \<in> set (List.product [0..<n] [0..<m])" using j i by simp
  have "j \<le> n - 1" using j by simp
  then have "j * ldc \<le> (n - 1) * ldc" by (rule mult_le_mono1)
  then have "c_off + j * ldc + i < length c" using len i by linarith
  then have lt: "?g (j, i) < length c" by simp
  from fold_add_at[where g = ?g and h = ?h, OF distinct_slab_positions[OF le] mem lt]
  show ?thesis unfolding c'' by simp
qed

lemma gemm_TN_other:
  assumes g: "gemm_TN m n k a lda b ldb c c_off ldc = Inr c'"
      and p: "\<forall>j<n. \<forall>i<m. p \<noteq> c_off + j * ldc + i"
  shows "c' ! p = c ! p"
proof (cases "m = 0 \<or> n = 0 \<or> k = 0")
  case True
  with g have "c' = c" by (auto simp: gemm_TN_def split: if_splits)
  then show ?thesis by simp
next
  case False
  let ?g = "\<lambda>ji. c_off + fst ji * ldc + snd ji"
  let ?h = "\<lambda>ji. (\<Sum>l\<leftarrow>[0..<k]. a ! (snd ji * lda + l) * b ! (fst ji * ldb + l))"
  from g False have
    c': "c' = fold (\<lambda>j c1.
                  fold (\<lambda>i c2.
                    c2[c_off + j * ldc + i :=
                         (\<Sum>l\<leftarrow>[0..<k]. a ! (i * lda + l) * b ! (j * ldb + l))
                         + c2 ! (c_off + j * ldc + i)])
                    [0..<m] c1)
                  [0..<n] c"
    by (auto simp: gemm_TN_def split: if_splits)
  have c'': "c' = fold (\<lambda>ji c2. c2[?g ji := ?h ji + c2 ! ?g ji]) (List.product [0..<n] [0..<m]) c"
    unfolding c' by (rule fold_product)
  have notin: "p \<notin> ?g ` set (List.product [0..<n] [0..<m])"
  proof
    assume "p \<in> ?g ` set (List.product [0..<n] [0..<m])"
    then obtain x where x: "x \<in> set (List.product [0..<n] [0..<m])" and px: "p = ?g x" by auto
    have "fst x < n" "snd x < m" using x by auto
    with p px show False by auto
  qed
  show ?thesis unfolding c'' by (rule fold_add_other[OF notin])
qed

text \<open>
  C8 (as the source has it). \<^verbatim>\<open>apply_advective_particle_rhs\<close> changes \<open>rho\<close> only, and
  not its size. With a filter matrix of nonzero dimensions, \<^verbatim>\<open>gemm\<close> is called with
  \<open>beta = 1\<close>: for every packed slab \<open>j\<close> (live or free) and every row \<open>i\<close> of the
  filter matrix, the product of row \<open>i\<close> with slab \<open>j\<close> of the right-hand side is
  added to entry \<open>i\<close> of slab \<open>j\<close> of \<open>rho\<close>, and every other entry of \<open>rho\<close> is left
  as it was. The previous density is kept and the filtered right-hand side is added
  to it. With a filter matrix that has no rows or no columns the right-hand side has
  the size of \<open>rho\<close> and the two are added entry by entry.
\<close>

theorem filtered_update:
  assumes "apply_advective_particle_rhs rc ps as rhs = Inr as'"
  shows "active_elements as' = active_elements as \<and> freelist as' = freelist as
       \<and> advected_particles as' = advected_particles as
       \<and> length (rho as') = length (rho as)
       \<and> (size1 (m_filter_matrix rc) \<noteq> 0 \<and> size2 (m_filter_matrix rc) \<noteq> 0 \<longrightarrow>
            (\<forall>j < active_contiguous_elements as. \<forall>i < size1 (m_filter_matrix rc).
               rho as' ! (j * m_dofs_per_element rc + i)
                 = (\<Sum>l\<leftarrow>[0..<size2 (m_filter_matrix rc)].
                      entries (m_filter_matrix rc) ! (i * size2 (m_filter_matrix rc) + l)
                        * rhs ! (j * m_dofs_per_element rc + l))
                   + rho as ! (j * m_dofs_per_element rc + i))
            \<and> (\<forall>p. (\<forall>j < active_contiguous_elements as. \<forall>i < size1 (m_filter_matrix rc).
                       p \<noteq> j * m_dofs_per_element rc + i)
                    \<longrightarrow> rho as' ! p = rho as ! p))
       \<and> (size1 (m_filter_matrix rc) = 0 \<or> size2 (m_filter_matrix rc) = 0 \<longrightarrow>
            length rhs = length (rho as) \<and> rho as' = map2 (+) (rho as) rhs)"
proof (cases "size1 (m_filter_matrix rc) \<noteq> 0 \<and> size2 (m_filter_matrix rc) \<noteq> 0")
  case True
  with assms obtain r where
    g: "gemm_TN (size1 (m_filter_matrix rc)) (active_contiguous_elements as)
          (size2 (m_filter_matrix rc)) (entries (m_filter_matrix rc)) (size2 (m_filter_matrix rc))
          rhs (m_dofs_per_element rc) (rho as) 0 (m_dofs_per_element rc) = Inr r"
    and as': "as' = as\<lparr>rho := r\<rparr>"
    unfolding apply_advective_particle_rhs_def batched_product_def
    by (auto simp: bindE_def split: sum.splits)
  have len: "length r = length (rho as)" by (rule gemm_TN_length[OF g])
  have at: "r ! (j * m_dofs_per_element rc + i)
                 = (\<Sum>l\<leftarrow>[0..<size2 (m_filter_matrix rc)].
                      entries (m_filter_matrix rc) ! (i * size2 (m_filter_matrix rc) + l)
                        * rhs ! (j * m_dofs_per_element rc + l))
                   + rho as ! (j * m_dofs_per_element rc + i)"
    if "j < active_contiguous_elements as" "i < size1 (m_filter_matrix rc)" for j i
    using gemm_TN_entry[OF g that] by simp
  have other: "r ! p = rho as ! p"
    if "\<forall>j < active_contiguous_elements as. \<forall>i < size1 (m_filter_matrix rc).
                       p \<noteq> j * m_dofs_per_element rc + i" for p
    using gemm_TN_other[OF g, of p] that by simp
  show ?thesis using True as' len at other by simp
next
  case False
  with assms have "length rhs = length (rho as)" "as' = as\<lparr>rho := map2 (+) (rho as) rhs\<rparr>"
    unfolding apply_advective_particle_rhs_def vec_plus_def
    by (auto simp: bindE_def split: sum.splits if_splits)
  then show ?thesis using False by auto
qed


lemmas update_eval = apply_advective_particle_rhs_def batched_product_def gemm_TN_def
  active_contiguous_elements_def vec_plus_def bindE_def u32_def ex_rc_filter_def ex_rc_def
  ex_state2_def upt_0_2

text \<open>
  A filter that averages the two entries of a slab into the first and keeps the
  second, and the update without a filter, on the same density and right-hand side.
\<close>

theorem filtered_update_witness:
  "apply_advective_particle_rhs (ex_rc_filter [1 / 2, 1 / 2, 0, 1]) ex_ps ex_state2 [2, 4, 6, 8]
     = Inr (ex_state2\<lparr>rho := [4, 5, 7, 8]\<rparr>)
   \<and> rho (ex_state2\<lparr>rho := [4, 5, 7, 8]\<rparr>) ! (1 * m_dofs_per_element (ex_rc_filter [1 / 2, 1 / 2, 0, 1]) + 0)
       = (1 / 2 * 6 + 1 / 2 * 8) + rho ex_state2 ! (1 * m_dofs_per_element (ex_rc_filter [1 / 2, 1 / 2, 0, 1]) + 0)
   \<and> apply_advective_particle_rhs ex_rc ex_ps ex_state2 [2, 4, 6, 8]
     = Inr (ex_state2\<lparr>rho := [3, 5, 6, 8]\<rparr>)
   \<and> rho (ex_state2\<lparr>rho := [3, 5, 6, 8]\<rparr>) = map2 (+) (rho ex_state2) [2, 4, 6, 8]"
proof -
  let ?rc = "ex_rc_filter [1 / 2, 1 / 2, 0, 1]"
  have h1: "apply_advective_particle_rhs ?rc ex_ps ex_state2 [2, 4, 6, 8]
     = Inr (ex_state2\<lparr>rho := [4, 5, 7, 8]\<rparr>)"
    by (simp add: update_eval)
  have h2: "apply_advective_particle_rhs ex_rc ex_ps ex_state2 [2, 4, 6, 8]
     = Inr (ex_state2\<lparr>rho := [3, 5, 6, 8]\<rparr>)"
    by (simp add: update_eval)
  have f: "size1 (m_filter_matrix ?rc) \<noteq> 0 \<and> size2 (m_filter_matrix ?rc) \<noteq> 0"
    by (simp add: ex_rc_filter_def)
  have nf: "size1 (m_filter_matrix ex_rc) = 0 \<or> size2 (m_filter_matrix ex_rc) = 0"
    by (simp add: ex_rc_def)
  have j: "1 < active_contiguous_elements ex_state2"
    by (simp add: active_contiguous_elements_def ex_state2_def u32_def)
  have i: "0 < size1 (m_filter_matrix ?rc)" by (simp add: ex_rc_filter_def)
  note T1 = filtered_update[OF h1]
  note T2 = filtered_update[OF h2]
  from T1 f j i have "rho (ex_state2\<lparr>rho := [4, 5, 7, 8]\<rparr>) ! (1 * m_dofs_per_element ?rc + 0)
                 = (\<Sum>l\<leftarrow>[0..<size2 (m_filter_matrix ?rc)].
                      entries (m_filter_matrix ?rc) ! (0 * size2 (m_filter_matrix ?rc) + l)
                        * [2, 4, 6, 8] ! (1 * m_dofs_per_element ?rc + l))
                   + rho ex_state2 ! (1 * m_dofs_per_element ?rc + 0)"
    by blast
  then have c1: "rho (ex_state2\<lparr>rho := [4, 5, 7, 8]\<rparr>) ! (1 * m_dofs_per_element ?rc + 0)
       = (1 / 2 * 6 + 1 / 2 * 8) + rho ex_state2 ! (1 * m_dofs_per_element ?rc + 0)"
    by (simp add: ex_rc_filter_def ex_rc_def upt_0_2)
  from T2 nf have c2: "rho (ex_state2\<lparr>rho := [3, 5, 6, 8]\<rparr>) = map2 (+) (rho ex_state2) [2, 4, 6, 8]"
    by blast
  show ?thesis using h1 h2 c1 c2 by blast
qed

text \<open>
  C8 as the specification words it has the batched product replace the previous
  density by a filtered quantity. With the filter matrix of two rows and two columns
  that is zero, every filtered quantity is zero, and the density \<open>[1, 1, 0, 0]\<close> is
  returned as it was.
\<close>

theorem filter_keeps_previous_density_counterexample:
  "size1 (m_filter_matrix (ex_rc_filter [0, 0, 0, 0])) = 2
   \<and> size2 (m_filter_matrix (ex_rc_filter [0, 0, 0, 0])) = 2
   \<and> apply_advective_particle_rhs (ex_rc_filter [0, 0, 0, 0]) ex_ps ex_state2 [2, 4, 6, 8]
        = Inr ex_state2
   \<and> rho ex_state2 = [1, 1, 0, 0]"
  by (simp add: update_eval)


section \<open>The charge of a new particle\<close>

lemmas place_eval = add_advective_particle_def place_shapes_def add_shape_on_element_def
  make_connections_def connect_element_def unscaled_mass_def scale_slab_def warn_def
  allocate_element_def resize_def find_element_def element_integral_def inner_prod_def
  vec_at_def vec_put_def vec_minus_def subrange_def set_subrange_def bindE_def u32_def
  INVALID_ELEMENT_def max_faces_def Let_def
  ex_rc_def ex_mesh_def ex_einfo0_def ex_einfo1_def ex_state0_def ex_ps_def ex_shape_def
  upt_0_2 replicate_4

lemma foldl_add_sum_list: "foldl (+) (a::real) xs = a + sum_list xs"
  by (induction xs arbitrary: a) simp_all

lemma inner_prod_scaled: "inner_prod w (map (\<lambda>x. x * c) v) = c * inner_prod w v"
proof -
  have "sum_list (map2 (*) w (map (\<lambda>x. x * c) v)) = c * sum_list (map2 (*) w v)"
  proof (induction w arbitrary: v)
    case Nil
    then show ?case by simp
  next
    case (Cons a w)
    then show ?case by (cases v) (simp_all add: algebra_simps)
  qed
  then show ?thesis by (simp add: inner_prod_def)
qed

lemma slab_written:
  assumes "s + d \<le> length r" "length ys = d"
  shows "take d (drop s (take s r @ ys @ drop (s + d) r)) = ys"
  using assms by simp

lemma slab_below_written:
  assumes "s + d \<le> length r" "s' + d \<le> s"
  shows "take d (drop s' (take s r @ ys @ drop (s + d) r)) = take d (drop s' r)"
proof -
  let ?front = "drop s' (take s r)"
  have lf: "length ?front = s - s'" using assms by simp
  have "drop s' (take s r @ ys @ drop (s + d) r) = ?front @ (ys @ drop (s + d) r)"
    using assms by simp
  then have "take d (drop s' (take s r @ ys @ drop (s + d) r)) = take d ?front"
    using lf assms by simp
  also have "?front = take (s - s') (drop s' r)" by (simp add: drop_take)
  also have "take d (take (s - s') (drop s' r)) = take d (drop s' r)"
    using assms by (simp add: min_def)
  finally show ?thesis .
qed

lemma slab_above_written:
  assumes "s + d \<le> length r" "length ys = d" "s + d \<le> s'"
  shows "take d (drop s' (take s r @ ys @ drop (s + d) r)) = take d (drop s' r)"
proof -
  have "drop s' (take s r @ ys @ drop (s + d) r) = drop (s' - (s + d)) (drop (s + d) r)"
    using assms by simp
  also have "\<dots> = drop s' r" using assms by simp
  finally show ?thesis by simp
qed

lemma aligned_slabs_apart:
  assumes "(d::nat) dvd s" "d dvd s'" "s \<noteq> s'"
  shows "s + d \<le> s' \<or> s' + d \<le> s"
proof -
  from assms obtain a b where a: "s = d * a" and b: "s' = d * b" by (auto simp: dvd_def)
  have "a \<noteq> b" using assms(3) a b by auto
  then consider "a < b" | "b < a" by linarith
  then show ?thesis
  proof cases
    case 1
    then have "Suc a \<le> b" by simp
    then have "d * Suc a \<le> d * b" by (rule mult_le_mono2)
    then show ?thesis using a b by simp
  next
    case 2
    then have "Suc b \<le> a" by simp
    then have "d * Suc b \<le> d * a" by (rule mult_le_mono2)
    then show ?thesis using a b by simp
  qed
qed

lemma scale_slab_result:
  assumes sc: "scale_slab rc c el r = Inr r'"
      and rng: "m_start_index el + m_dofs_per_element rc < 4294967296"
  shows "length r' = length r
       \<and> m_start_index el + m_dofs_per_element rc \<le> length r
       \<and> take (m_dofs_per_element rc) (drop (m_start_index el) r')
           = map (\<lambda>x. x * c) (take (m_dofs_per_element rc) (drop (m_start_index el) r))
       \<and> (\<forall>s'. s' + m_dofs_per_element rc \<le> m_start_index el
                 \<or> m_start_index el + m_dofs_per_element rc \<le> s'
              \<longrightarrow> take (m_dofs_per_element rc) (drop s' r')
                  = take (m_dofs_per_element rc) (drop s' r))"
proof -
  let ?s = "m_start_index el" and ?d = "m_dofs_per_element rc"
  have u: "u32 (?s + ?d) = ?s + ?d" using rng by (simp add: u32_def)
  from sc[unfolded scale_slab_def u] obtain slab where
    sl: "subrange r ?s (?s + ?d) = Inr slab"
    and w: "set_subrange r ?s (?s + ?d) (map (\<lambda>x. x * c) slab) = Inr r'"
    by (rule bindE_Inr)
  from sl have le: "?s + ?d \<le> length r" and slab: "slab = take ?d (drop ?s r)"
    by (auto simp: subrange_def split: if_splits)
  from w have r': "r' = take ?s r @ map (\<lambda>x. x * c) slab @ drop (?s + ?d) r"
    by (auto simp: set_subrange_def split: if_splits)
  have ls: "length (map (\<lambda>x. x * c) slab) = ?d" using le slab by simp
  have len: "length r' = length r" unfolding r' using le ls by simp
  have at: "take ?d (drop ?s r') = map (\<lambda>x. x * c) (take ?d (drop ?s r))"
    unfolding r' using slab_written[OF le ls] slab by simp
  have other: "take ?d (drop s' r') = take ?d (drop s' r)"
    if "s' + ?d \<le> ?s \<or> ?s + ?d \<le> s'" for s'
    using that
  proof
    assume "s' + ?d \<le> ?s"
    then show ?thesis unfolding r' by (rule slab_below_written[OF le])
  next
    assume "?s + ?d \<le> s'"
    then show ?thesis unfolding r' by (rule slab_above_written[OF le ls])
  qed
  show ?thesis using len le at other by blast
qed


lemma scale_fold_other:
  assumes "foldE (scale_slab rc c) els r = Inr r'"
      and "\<forall>el \<in> set els. m_start_index el + m_dofs_per_element rc < 4294967296
             \<and> (s' + m_dofs_per_element rc \<le> m_start_index el
                  \<or> m_start_index el + m_dofs_per_element rc \<le> s')"
  shows "take (m_dofs_per_element rc) (drop s' r') = take (m_dofs_per_element rc) (drop s' r)"
  using assms
proof (induction els arbitrary: r)
  case Nil
  then show ?case by simp
next
  case (Cons e es)
  from Cons.prems(1) obtain r1 where r1: "scale_slab rc c e r = Inr r1"
    and rest: "foldE (scale_slab rc c) es r1 = Inr r'"
    by (auto split: sum.splits)
  have rng: "m_start_index e + m_dofs_per_element rc < 4294967296" using Cons.prems(2) by simp
  have apart: "s' + m_dofs_per_element rc \<le> m_start_index e
                  \<or> m_start_index e + m_dofs_per_element rc \<le> s'" using Cons.prems(2) by simp
  have one: "take (m_dofs_per_element rc) (drop s' r1) = take (m_dofs_per_element rc) (drop s' r)"
    using scale_slab_result[OF r1 rng] apart by blast
  have "take (m_dofs_per_element rc) (drop s' r') = take (m_dofs_per_element rc) (drop s' r1)"
    by (rule Cons.IH[OF rest]) (use Cons.prems(2) in simp)
  then show ?case using one by simp
qed

lemma scale_fold_at:
  assumes "foldE (scale_slab rc c) els r = Inr r'"
      and "distinct (map m_start_index els)"
      and "\<forall>el \<in> set els. m_dofs_per_element rc dvd m_start_index el
             \<and> m_start_index el + m_dofs_per_element rc < 4294967296"
      and "el \<in> set els"
  shows "take (m_dofs_per_element rc) (drop (m_start_index el) r')
       = map (\<lambda>x. x * c) (take (m_dofs_per_element rc) (drop (m_start_index el) r))"
  using assms
proof (induction els arbitrary: r)
  case Nil
  then show ?case by simp
next
  case (Cons e es)
  let ?d = "m_dofs_per_element rc"
  from Cons.prems(1) obtain r1 where r1: "scale_slab rc c e r = Inr r1"
    and rest: "foldE (scale_slab rc c) es r1 = Inr r'"
    by (auto split: sum.splits)
  have rng: "m_start_index e + ?d < 4294967296" using Cons.prems(3) by simp
  note one = scale_slab_result[OF r1 rng]
  have des: "distinct (map m_start_index es)" using Cons.prems(2) by simp
  have ales: "\<forall>el \<in> set es. ?d dvd m_start_index el \<and> m_start_index el + ?d < 4294967296"
    using Cons.prems(3) by simp
  show ?case
  proof (cases "m_start_index el = m_start_index e")
    case True
    have away: "\<forall>x \<in> set es. m_start_index x + ?d < 4294967296
             \<and> (m_start_index e + ?d \<le> m_start_index x \<or> m_start_index x + ?d \<le> m_start_index e)"
    proof
      fix x assume x: "x \<in> set es"
      then have ne: "m_start_index e \<noteq> m_start_index x" using Cons.prems(2) by auto
      have "?d dvd m_start_index e" "?d dvd m_start_index x" using Cons.prems(3) x by simp_all
      from aligned_slabs_apart[OF this ne] ales x
      show "m_start_index x + ?d < 4294967296
             \<and> (m_start_index e + ?d \<le> m_start_index x \<or> m_start_index x + ?d \<le> m_start_index e)"
        by simp
    qed
    have "take ?d (drop (m_start_index e) r') = take ?d (drop (m_start_index e) r1)"
      by (rule scale_fold_other[OF rest away])
    then show ?thesis using one True by simp
  next
    case False
    then have el: "el \<in> set es" using Cons.prems(4) by auto
    have ne: "m_start_index el \<noteq> m_start_index e" using False by simp
    have "?d dvd m_start_index el" "?d dvd m_start_index e" using Cons.prems(3) el by simp_all
    from aligned_slabs_apart[OF this ne]
    have "take ?d (drop (m_start_index el) r1) = take ?d (drop (m_start_index el) r)"
      using one by blast
    then show ?thesis using Cons.IH[OF rest des ales el] by simp
  qed
qed

lemma book_inv_rho: "book_inv d N (as\<lparr>rho := r\<rparr>) live = book_inv d N as live"
  by (simp add: book_inv_def slab_count_def)

lemma add_shape_on_element_book:
  assumes a: "add_shape_on_element rc call st = Inr st'"
      and inv: "book_inv d N (fst st) (live @ map m_start_index (m_elements (snd st)))"
      and d: "m_dofs_per_element rc = d"
      and room: "length live + length (m_elements (snd st)) < N"
  shows "book_inv d N (fst st') (live @ map m_start_index (m_elements (snd st')))
       \<and> length (m_elements (snd st')) = Suc (length (m_elements (snd st)))"
proof -
  from a[unfolded add_shape_on_element_def Let_def] obtain einfo where
    a1: "bindE (allocate_element rc (fst st)) (\<lambda>allocated.
           bindE (foldE (\<lambda>i rho_v.
                       bindE (vec_at (mesh_nodes (m_mesh_data rc)) (u32 (m_start einfo + i))) (\<lambda>node.
                       bindE (vec_minus node (fst call)) (\<lambda>r.
                         vec_put rho_v (u32 (snd allocated + i)) (m_shape_function (snd st) r))))
                     [0..<m_dofs_per_element rc] (rho (fst allocated))) (\<lambda>rho1.
                Inr ((fst allocated)\<lparr>rho := rho1\<rparr>,
                     (snd st)\<lparr>m_elements := m_elements (snd st) @
                        [\<lparr>m_element_info = einfo,
                          m_connections = replicate max_faces INVALID_ELEMENT,
                          m_start_index = snd allocated, m_min_life = 0\<rparr>]\<rparr>))) = Inr st'"
    by (rule bindE_Inr)
  from a1 obtain allocated where al: "allocate_element rc (fst st) = Inr allocated"
    and a2: "bindE (foldE (\<lambda>i rho_v.
                       bindE (vec_at (mesh_nodes (m_mesh_data rc)) (u32 (m_start einfo + i))) (\<lambda>node.
                       bindE (vec_minus node (fst call)) (\<lambda>r.
                         vec_put rho_v (u32 (snd allocated + i)) (m_shape_function (snd st) r))))
                     [0..<m_dofs_per_element rc] (rho (fst allocated))) (\<lambda>rho1.
                Inr ((fst allocated)\<lparr>rho := rho1\<rparr>,
                     (snd st)\<lparr>m_elements := m_elements (snd st) @
                        [\<lparr>m_element_info = einfo,
                          m_connections = replicate max_faces INVALID_ELEMENT,
                          m_start_index = snd allocated, m_min_life = 0\<rparr>]\<rparr>)) = Inr st'"
    by (rule bindE_Inr)
  from a2 obtain rho1 where
    st': "Inr ((fst allocated)\<lparr>rho := rho1\<rparr>,
                     (snd st)\<lparr>m_elements := m_elements (snd st) @
                        [\<lparr>m_element_info = einfo,
                          m_connections = replicate max_faces INVALID_ELEMENT,
                          m_start_index = snd allocated, m_min_life = 0\<rparr>]\<rparr>)
          = (Inr st' :: error + (advective_state \<times> advected_particle))"
    by (rule bindE_Inr)
  have al': "allocate_element rc (fst st) = Inr (fst allocated, snd allocated)" using al by simp
  have room': "length (live @ map m_start_index (m_elements (snd st))) < N" using room by simp
  have "book_inv d N (fst allocated)
          ((live @ map m_start_index (m_elements (snd st))) @ [snd allocated])"
    by (rule allocate_book[OF inv d room' al'])
  then show ?thesis using st' by (auto simp: book_inv_rho)
qed

lemma place_shapes_book:
  assumes "foldE (add_shape_on_element rc) found st = Inr st'"
      and "book_inv d N (fst st) (live @ map m_start_index (m_elements (snd st)))"
      and "m_dofs_per_element rc = d"
      and "length live + length (m_elements (snd st)) + length found \<le> N"
  shows "book_inv d N (fst st') (live @ map m_start_index (m_elements (snd st')))"
  using assms
proof (induction found arbitrary: st)
  case Nil
  then show ?case by simp
next
  case (Cons call found)
  from Cons.prems(1) obtain s1 where s1: "add_shape_on_element rc call st = Inr s1"
    and rest: "foldE (add_shape_on_element rc) found s1 = Inr st'"
    by (auto split: sum.splits)
  have room: "length live + length (m_elements (snd st)) < N" using Cons.prems(4) by simp
  note one = add_shape_on_element_book[OF s1 Cons.prems(2,3) room]
  have inv1: "book_inv d N (fst s1) (live @ map m_start_index (m_elements (snd s1)))"
    using one by simp
  have room1: "length live + length (m_elements (snd s1)) + length found \<le> N"
    using one Cons.prems(4) by simp
  show ?case by (rule Cons.IH[OF rest inv1 Cons.prems(3) room1])
qed

lemma update_connections_keeps:
  "map m_start_index (els[k := (els ! k)\<lparr>m_connections := c\<rparr>]) = map m_start_index els
   \<and> map m_element_info (els[k := (els ! k)\<lparr>m_connections := c\<rparr>]) = map m_element_info els"
proof -
  have "map m_start_index (els[k := (els ! k)\<lparr>m_connections := c\<rparr>])
        = (map m_start_index els)[k := m_start_index (els ! k)]"
    by (simp add: map_update)
  moreover have "map m_element_info (els[k := (els ! k)\<lparr>m_connections := c\<rparr>])
        = (map m_element_info els)[k := m_element_info (els ! k)]"
    by (simp add: map_update)
  ultimately show ?thesis by (simp only: map_update_same)
qed

lemma connect_element_keeps:
  assumes "connect_element p k = Inr p'"
  shows "map m_start_index (m_elements p') = map m_start_index (m_elements p)
       \<and> map m_element_info (m_elements p') = map m_element_info (m_elements p)"
proof -
  let ?P = "\<lambda>p1. map m_start_index (m_elements p1) = map m_start_index (m_elements p)
       \<and> map m_element_info (m_elements p1) = map m_element_info (m_elements p)"
  show ?thesis
  proof (rule foldE_preserves[where P = ?P, OF _ _ assms[unfolded connect_element_def Let_def]])
    fix x s s'
    assume step: "(if find_element s (m_neighbor (snd x)) \<noteq> None
             then bindE (vec_put (m_connections (m_elements s ! k)) (fst x) (m_neighbor (snd x)))
                    (\<lambda>c. Inr (s\<lparr>m_elements := (m_elements s)
                                [k := (m_elements s ! k)\<lparr>m_connections := c\<rparr>]\<rparr>))
             else Inr s) = Inr s'" and P: "?P s"
    from step have "s' = s \<or> (\<exists>c. m_elements s'
                        = (m_elements s)[k := (m_elements s ! k)\<lparr>m_connections := c\<rparr>])"
      by (auto simp: bindE_def split: if_splits sum.splits)
    then show "?P s'"
    proof
      assume "s' = s"
      then show ?thesis using P by simp
    next
      assume "\<exists>c. m_elements s' = (m_elements s)[k := (m_elements s ! k)\<lparr>m_connections := c\<rparr>]"
      then obtain c where
        c: "m_elements s' = (m_elements s)[k := (m_elements s ! k)\<lparr>m_connections := c\<rparr>]"
        by blast
      show ?thesis
        unfolding c using update_connections_keeps[of "m_elements s" k c] P by (simp only:)
    qed
  qed simp
qed

lemma make_connections_keeps:
  assumes "make_connections p = Inr p'"
  shows "map m_start_index (m_elements p') = map m_start_index (m_elements p)
       \<and> map m_element_info (m_elements p') = map m_element_info (m_elements p)"
proof -
  let ?P = "\<lambda>p1. map m_start_index (m_elements p1) = map m_start_index (m_elements p)
       \<and> map m_element_info (m_elements p1) = map m_element_info (m_elements p)"
  show ?thesis
  proof (rule foldE_preserves[where P = ?P, OF _ _ assms[unfolded make_connections_def]])
    fix x s s'
    assume "connect_element s x = Inr s'" and "?P s"
    then show "?P s'" using connect_element_keeps[of s x s'] by simp
  qed simp
qed

lemma unscaled_masses_value:
  assumes "mapE (unscaled_mass rc r) els = Inr ms"
      and "\<forall>el \<in> set els. m_start_index el + m_dofs_per_element rc < 4294967296"
  shows "ms = map (\<lambda>el. element_integral rc (m_jacobian (m_element_info el))
                     (take (m_dofs_per_element rc) (drop (m_start_index el) r))) els"
  using assms
proof (induction els arbitrary: ms)
  case Nil
  then show ?case by simp
next
  case (Cons e es)
  from Cons.prems(1) obtain m ms' where m: "unscaled_mass rc r e = Inr m"
    and r: "mapE (unscaled_mass rc r) es = Inr ms'" and ms: "ms = m # ms'"
    by (auto split: sum.splits)
  have u: "u32 (m_start_index e + m_dofs_per_element rc) = m_start_index e + m_dofs_per_element rc"
    using Cons.prems(2) by (simp add: u32_def)
  from m have "m = element_integral rc (m_jacobian (m_element_info e))
                     (take (m_dofs_per_element rc) (drop (m_start_index e) r))"
    unfolding unscaled_mass_def u by (auto simp: bindE_def subrange_def split: if_splits)
  moreover have "ms' = map (\<lambda>el. element_integral rc (m_jacobian (m_element_info el))
                     (take (m_dofs_per_element rc) (drop (m_start_index el) r))) es"
    by (rule Cons.IH[OF r]) (use Cons.prems(2) in simp)
  ultimately show ?case using ms by simp
qed

lemma patch_integral_slabs:
  "patch_integral rc r p
     = (\<Sum>se\<leftarrow>zip (map m_start_index (m_elements p)) (map m_element_info (m_elements p)).
          element_integral rc (m_jacobian (snd se)) (take (m_dofs_per_element rc) (drop (fst se) r)))"
proof -
  have eq: "map (\<lambda>el. element_integral rc (m_jacobian (m_element_info el))
                     (take (m_dofs_per_element rc) (drop (m_start_index el) r))) els
      = map (\<lambda>se. element_integral rc (m_jacobian (snd se))
                     (take (m_dofs_per_element rc) (drop (fst se) r)))
          (zip (map m_start_index els) (map m_element_info els))" for els
    by (induction els) simp_all
  show ?thesis unfolding patch_integral_def eq ..
qed

lemma slab_end_in_range:
  assumes inv: "book_inv d N as live" and x: "x \<in> set live"
  shows "x + d < 4294967296"
proof -
  from inv have dv: "d dvd x" and nd: "N * d < 4294967296" and sc: "slab_count as \<le> N"
    using x by (auto simp: book_inv_def)
  have lt: "x < slab_count as * d" by (rule live_below[OF inv x])
  from dv obtain k where k: "x = d * k" by (auto simp: dvd_def)
  have "k < slab_count as" using lt k by (simp add: mult.commute)
  then have "Suc k \<le> N" using sc by simp
  then have "d * Suc k \<le> d * N" by (rule mult_le_mono2)
  then show ?thesis using k nd by (simp add: mult.commute)
qed


lemma bindE_Inr_left: "bindE (Inr x) f = f x"
  by (simp add: bindE_def)

lemma patch_integral_scaled:
  assumes "\<forall>el \<in> set (m_elements p).
             take (m_dofs_per_element rc) (drop (m_start_index el) r')
               = map (\<lambda>x. x * c) (take (m_dofs_per_element rc) (drop (m_start_index el) r))"
  shows "patch_integral rc r' p = c * patch_integral rc r p"
proof -
  have eq: "map (\<lambda>el. element_integral rc (m_jacobian (m_element_info el))
                     (take (m_dofs_per_element rc) (drop (m_start_index el) r'))) (m_elements p)
      = map (\<lambda>el. c * element_integral rc (m_jacobian (m_element_info el))
                     (take (m_dofs_per_element rc) (drop (m_start_index el) r))) (m_elements p)"
    by (rule map_cong[OF refl]) (use assms in \<open>simp add: element_integral_def inner_prod_scaled\<close>)
  show ?thesis unfolding patch_integral_def eq by (simp only: sum_list_const_mult)
qed

lemma add_shape_on_element_particles:
  assumes "add_shape_on_element rc call st = Inr st'"
  shows "advected_particles (fst st') = advected_particles (fst st)"
proof -
  from assms obtain allocated rho1 where al: "allocate_element rc (fst st) = Inr allocated"
    and st': "fst st' = (fst allocated)\<lparr>rho := rho1\<rparr>"
    unfolding add_shape_on_element_def Let_def
    by (auto simp: bindE_def split: sum.splits)
  have "allocate_element rc (fst st) = Inr (fst allocated, snd allocated)" using al by simp
  from allocate_element_particles[OF this] show ?thesis using st' by simp
qed

lemma place_shapes_particles:
  assumes "place_shapes rc found as sf = Inr (as1, p0)"
  shows "advected_particles as1 = advected_particles as"
proof -
  have "advected_particles (fst (as1, p0)) = advected_particles as"
    by (rule foldE_preserves[where P = "\<lambda>s. advected_particles (fst s) = advected_particles as",
          OF _ _ assms[unfolded place_shapes_def]])
       (simp_all add: add_shape_on_element_particles)
  then show ?thesis by simp
qed

text \<open>
  C2 (as the source has it). Let the state satisfy the bookkeeping invariant of the
  allocator for the offsets \<open>live\<close> held so far, with room for the slabs of the new
  patch below the bound \<open>N\<close>, and let \<^verbatim>\<open>add_advective_particle\<close> return; \<open>as1\<close> and \<open>p0\<close>
  are the state and the patch after the element finder has run, so that the
  integral of \<open>p0\<close> over \<open>rho as1\<close> is the total unscaled mass. The new particle is
  appended to the particles. If the total unscaled mass is not zero, the integral of
  the new patch equals the charge \<open>ps.charges[pn]\<close> and no warning is raised. If it is
  zero, a warning listener is registered and has been handed the warning, and every
  slab of the patch holds its sampled values multiplied by the charge. Without a
  registered listener the call does not return in that case.
\<close>

theorem initial_charge_normalised:
  assumes inv: "book_inv (m_dofs_per_element rc) N as live"
      and room: "length live + length found \<le> N"
      and placed: "place_shapes rc found as sf = Inr (as1, p0)"
      and add: "add_advective_particle rc listener found ps as sf pn = Inr (as', warned)"
  shows "advected_particles as' = advected_particles as @ [last (advected_particles as')]
       \<and> (patch_integral rc (rho as1) p0 \<noteq> 0 \<longrightarrow>
            patch_integral rc (rho as') (last (advected_particles as')) = charges ps ! pn
            \<and> \<not> warned)
       \<and> (patch_integral rc (rho as1) p0 = 0 \<longrightarrow>
            listener \<and> warned
            \<and> (\<forall>el \<in> set (m_elements (last (advected_particles as'))).
                  take (m_dofs_per_element rc) (drop (m_start_index el) (rho as'))
                    = map (\<lambda>x. x * (charges ps ! pn))
                        (take (m_dofs_per_element rc) (drop (m_start_index el) (rho as1)))))"
proof -
  let ?d = "m_dofs_per_element rc"
  from add have seq: "pn = length (advected_particles as)"
    unfolding add_advective_particle_def by (auto split: if_splits)
  have unf: "add_advective_particle rc listener found ps as sf pn =
     bindE (make_connections p0) (\<lambda>new_particle.
           bindE (mapE (unscaled_mass rc (rho as1)) (m_elements new_particle))
             (\<lambda>unscaled_masses.
           bindE (vec_at (charges ps) pn) (\<lambda>charge.
             bindE (if foldl (+) 0 unscaled_masses = 0
                       then bindE (warn listener) (\<lambda>u. Inr (charge, True))
                       else Inr (charge / foldl (+) 0 unscaled_masses, False)) (\<lambda>scaling.
                bindE (foldE (scale_slab rc (fst scaling)) (m_elements new_particle)
                         (rho as1)) (\<lambda>rho1.
                  Inr (as1\<lparr>rho := rho1,
                         advected_particles := advected_particles as1 @ [new_particle]\<rparr>,
                       snd scaling))))))"
    unfolding add_advective_particle_def placed bindE_Inr_left Let_def fst_conv snd_conv
    using seq by simp
  have body: "bindE (make_connections p0) (\<lambda>new_particle.
           bindE (mapE (unscaled_mass rc (rho as1)) (m_elements new_particle))
             (\<lambda>unscaled_masses.
           bindE (vec_at (charges ps) pn) (\<lambda>charge.
             bindE (if foldl (+) 0 unscaled_masses = 0
                       then bindE (warn listener) (\<lambda>u. Inr (charge, True))
                       else Inr (charge / foldl (+) 0 unscaled_masses, False)) (\<lambda>scaling.
                bindE (foldE (scale_slab rc (fst scaling)) (m_elements new_particle)
                         (rho as1)) (\<lambda>rho1.
                  Inr (as1\<lparr>rho := rho1,
                         advected_particles := advected_particles as1 @ [new_particle]\<rparr>,
                       snd scaling)))))) = Inr (as', warned)"
    using add unfolding unf .
  from body obtain p where mk: "make_connections p0 = Inr p"
    and b1: "bindE (mapE (unscaled_mass rc (rho as1)) (m_elements p))
             (\<lambda>unscaled_masses.
           bindE (vec_at (charges ps) pn) (\<lambda>charge.
             bindE (if foldl (+) 0 unscaled_masses = 0
                       then bindE (warn listener) (\<lambda>u. Inr (charge, True))
                       else Inr (charge / foldl (+) 0 unscaled_masses, False)) (\<lambda>scaling.
                bindE (foldE (scale_slab rc (fst scaling)) (m_elements p)
                         (rho as1)) (\<lambda>rho1.
                  Inr (as1\<lparr>rho := rho1,
                         advected_particles := advected_particles as1 @ [p]\<rparr>,
                       snd scaling))))) = Inr (as', warned)"
    by (rule bindE_Inr)
  from b1 obtain ms where ms: "mapE (unscaled_mass rc (rho as1)) (m_elements p) = Inr ms"
    and b2: "bindE (vec_at (charges ps) pn) (\<lambda>charge.
             bindE (if foldl (+) 0 ms = 0
                       then bindE (warn listener) (\<lambda>u. Inr (charge, True))
                       else Inr (charge / foldl (+) 0 ms, False)) (\<lambda>scaling.
                bindE (foldE (scale_slab rc (fst scaling)) (m_elements p)
                         (rho as1)) (\<lambda>rho1.
                  Inr (as1\<lparr>rho := rho1,
                         advected_particles := advected_particles as1 @ [p]\<rparr>,
                       snd scaling)))) = Inr (as', warned)"
    by (rule bindE_Inr)
  from b2 obtain charge where ch: "vec_at (charges ps) pn = Inr charge"
    and b3: "bindE (if foldl (+) 0 ms = 0
                       then bindE (warn listener) (\<lambda>u. Inr (charge, True))
                       else Inr (charge / foldl (+) 0 ms, False)) (\<lambda>scaling.
                bindE (foldE (scale_slab rc (fst scaling)) (m_elements p)
                         (rho as1)) (\<lambda>rho1.
                  Inr (as1\<lparr>rho := rho1,
                         advected_particles := advected_particles as1 @ [p]\<rparr>,
                       snd scaling))) = Inr (as', warned)"
    by (rule bindE_Inr)
  from b3 obtain scaling where sc: "(if foldl (+) 0 ms = 0
                       then bindE (warn listener) (\<lambda>u. Inr (charge, True))
                       else Inr (charge / foldl (+) 0 ms, False)) = Inr scaling"
    and b4: "bindE (foldE (scale_slab rc (fst scaling)) (m_elements p)
                         (rho as1)) (\<lambda>rho1.
                  Inr (as1\<lparr>rho := rho1,
                         advected_particles := advected_particles as1 @ [p]\<rparr>,
                       snd scaling)) = Inr (as', warned)"
    by (rule bindE_Inr)
  from b4 obtain rho1 where fold: "foldE (scale_slab rc (fst scaling)) (m_elements p) (rho as1) = Inr rho1"
    and res: "Inr (as1\<lparr>rho := rho1, advected_particles := advected_particles as1 @ [p]\<rparr>,
                   snd scaling) = (Inr (as', warned) :: error + (advective_state \<times> bool))"
    by (rule bindE_Inr)
  from res have as': "as' = as1\<lparr>rho := rho1, advected_particles := advected_particles as1 @ [p]\<rparr>"
    and warned: "warned = snd scaling" by simp_all
  have charge: "charge = charges ps ! pn" using ch by (auto simp: vec_at_def split: if_splits)
  have parts: "advected_particles as1 = advected_particles as"
    by (rule place_shapes_particles[OF placed])
  have lastp: "last (advected_particles as') = p" and rho': "rho as' = rho1"
    using as' by simp_all
  note keeps = make_connections_keeps[OF mk]
  have book: "book_inv ?d N (fst (as1, p0)) (live @ map m_start_index (m_elements (snd (as1, p0))))"
    by (rule place_shapes_book[OF placed[unfolded place_shapes_def]]) (use inv room in simp_all)
  then have book': "book_inv ?d N as1 (live @ map m_start_index (m_elements p))"
    using keeps by simp
  have dist: "distinct (map m_start_index (m_elements p))"
    using book' by (simp add: book_inv_def)
  have aligned: "\<forall>el \<in> set (m_elements p). ?d dvd m_start_index el
             \<and> m_start_index el + ?d < 4294967296"
  proof
    fix el assume "el \<in> set (m_elements p)"
    then have mem: "m_start_index el \<in> set (live @ map m_start_index (m_elements p))" by simp
    have "?d dvd m_start_index el" using book' mem by (simp add: book_inv_def)
    moreover have "m_start_index el + ?d < 4294967296" by (rule slab_end_in_range[OF book' mem])
    ultimately show "?d dvd m_start_index el \<and> m_start_index el + ?d < 4294967296" by simp
  qed
  have msv: "ms = map (\<lambda>el. element_integral rc (m_jacobian (m_element_info el))
                     (take ?d (drop (m_start_index el) (rho as1)))) (m_elements p)"
    by (rule unscaled_masses_value[OF ms]) (use aligned in simp)
  have total: "foldl (+) 0 ms = patch_integral rc (rho as1) p0"
  proof -
    have "foldl (+) 0 ms = patch_integral rc (rho as1) p"
      unfolding msv patch_integral_def by (simp add: foldl_add_sum_list)
    also have "\<dots> = patch_integral rc (rho as1) p0"
      unfolding patch_integral_slabs using keeps by simp
    finally show ?thesis .
  qed
  have at: "\<forall>el \<in> set (m_elements p).
             take ?d (drop (m_start_index el) rho1)
               = map (\<lambda>x. x * fst scaling) (take ?d (drop (m_start_index el) (rho as1)))"
    using scale_fold_at[OF fold dist aligned] by blast
  have scaled: "patch_integral rc rho1 p = fst scaling * patch_integral rc (rho as1) p"
    by (rule patch_integral_scaled[OF at])
  have same: "patch_integral rc (rho as1) p = patch_integral rc (rho as1) p0"
    unfolding patch_integral_slabs using keeps by simp
  have c1: "advected_particles as' = advected_particles as @ [last (advected_particles as')]"
    using as' parts by simp
  have c2: "patch_integral rc (rho as') (last (advected_particles as')) = charges ps ! pn \<and> \<not> warned"
    if nz: "patch_integral rc (rho as1) p0 \<noteq> 0"
  proof -
    from sc nz total have "scaling = (charge / patch_integral rc (rho as1) p0, False)" by simp
    then show ?thesis unfolding lastp rho' scaled same warned using nz charge by simp
  qed
  have c3: "listener \<and> warned
            \<and> (\<forall>el \<in> set (m_elements (last (advected_particles as'))).
                  take ?d (drop (m_start_index el) (rho as'))
                    = map (\<lambda>x. x * (charges ps ! pn))
                        (take ?d (drop (m_start_index el) (rho as1))))"
    if z: "patch_integral rc (rho as1) p0 = 0"
  proof -
    from sc z total have w: "bindE (warn listener) (\<lambda>u. Inr (charge, True)) = Inr scaling" by simp
    then have l: listener by (auto simp: warn_def bindE_def split: if_splits)
    from w l have "scaling = (charge, True)" by (simp add: warn_def bindE_def)
    then show ?thesis unfolding lastp rho' warned using l at charge by simp
  qed
  show ?thesis using c1 c2 c3 by blast
qed

text \<open>
  A particle of charge \<open>1\<close> centred on the node shared by the two elements: the sampled
  values \<open>3, 4, 4, 3\<close> have total mass \<open>14\<close> and are scaled by \<open>1/14\<close>. A particle
  centred far outside the mesh samples zeros only; with a listener the call returns
  and reports the warning.
\<close>

theorem initial_charge_normalised_witness:
  "place_shapes ex_rc [([1], 0), ([1], 1)] ex_state0 ex_shape
     = Inr (\<lparr>active_elements = 2, freelist = [], advected_particles = [], rho = [3, 4, 4, 3]\<rparr>,
            \<lparr>m_shape_function = ex_shape,
              m_elements = [ex_el0_alone,
                            ex_el1\<lparr>m_connections := replicate max_faces INVALID_ELEMENT,
                                  m_min_life := 0\<rparr>]\<rparr>)
   \<and> patch_integral ex_rc [3, 4, 4, 3]
        \<lparr>m_shape_function = ex_shape,
          m_elements = [ex_el0_alone,
                        ex_el1\<lparr>m_connections := replicate max_faces INVALID_ELEMENT,
                              m_min_life := 0\<rparr>]\<rparr> = 14
   \<and> add_advective_particle ex_rc False [([1], 0), ([1], 1)] ex_ps ex_state0 ex_shape 0
     = Inr (\<lparr>active_elements = 2, freelist = [],
              advected_particles = [\<lparr>m_shape_function = ex_shape,
                 m_elements = [ex_el0\<lparr>m_min_life := 0\<rparr>, ex_el1\<lparr>m_min_life := 0\<rparr>]\<rparr>],
              rho = [3 / 14, 2 / 7, 2 / 7, 3 / 14]\<rparr>, False)
   \<and> patch_integral ex_rc [3 / 14, 2 / 7, 2 / 7, 3 / 14]
        \<lparr>m_shape_function = ex_shape,
          m_elements = [ex_el0\<lparr>m_min_life := 0\<rparr>, ex_el1\<lparr>m_min_life := 0\<rparr>]\<rparr>
       = charges ex_ps ! 0
   \<and> add_advective_particle ex_rc True [([10], 0)] ex_ps ex_state0 ex_shape 0
     = Inr (\<lparr>active_elements = 1, freelist = [],
              advected_particles = [\<lparr>m_shape_function = ex_shape, m_elements = [ex_el0_alone]\<rparr>],
              rho = [0, 0, 0, 0]\<rparr>, True)"
proof -
  let ?found = "[([1], 0), ([1::real], 1::nat)]"
  let ?mid = "\<lparr>active_elements = 2, freelist = [], advected_particles = [],
               rho = [3, 4, 4, 3::real]\<rparr>"
  let ?placed = "\<lparr>m_shape_function = ex_shape,
              m_elements = [ex_el0_alone,
                            ex_el1\<lparr>m_connections := replicate max_faces INVALID_ELEMENT,
                                  m_min_life := 0\<rparr>]\<rparr>"
  let ?wired = "\<lparr>m_shape_function = ex_shape,
             m_elements = [ex_el0\<lparr>m_min_life := 0\<rparr>, ex_el1\<lparr>m_min_life := 0\<rparr>]\<rparr>"
  let ?final = "\<lparr>active_elements = 2, freelist = [], advected_particles = [?wired],
               rho = [3 / 14, 2 / 7, 2 / 7, 3 / 14::real]\<rparr>"
  note ev = place_eval ex_el0_alone_def ex_el0_def ex_el1_def
  have d: "m_dofs_per_element ex_rc = 2" by (simp add: ex_rc_def)
  have h1: "book_inv (m_dofs_per_element ex_rc) 2 ex_state0 []"
    unfolding d by (rule book_inv_fresh) (simp_all add: ex_state0_def)
  have h2: "length ([]::nat list) + length ?found \<le> 2" by simp
  have h3: "place_shapes ex_rc ?found ex_state0 ex_shape = Inr (?mid, ?placed)"
    by (simp add: ev)
  have h4: "add_advective_particle ex_rc False ?found ex_ps ex_state0 ex_shape 0 = Inr (?final, False)"
    by (simp add: ev)
  have m: "patch_integral ex_rc [3, 4, 4, 3] ?placed = 14"
    by (simp add: patch_integral_def ev)
  have z: "add_advective_particle ex_rc True [([10], 0)] ex_ps ex_state0 ex_shape 0
     = Inr (\<lparr>active_elements = 1, freelist = [],
              advected_particles = [\<lparr>m_shape_function = ex_shape, m_elements = [ex_el0_alone]\<rparr>],
              rho = [0, 0, 0, 0]\<rparr>, True)"
    by (simp add: ev)
  note T = initial_charge_normalised[OF h1 h2 h3 h4]
  have nz: "patch_integral ex_rc (rho ?mid) ?placed \<noteq> 0" using m by simp
  from T nz have "patch_integral ex_rc (rho ?final) (last (advected_particles ?final)) = charges ex_ps ! 0"
    by blast
  then have c: "patch_integral ex_rc [3 / 14, 2 / 7, 2 / 7, 3 / 14] ?wired = charges ex_ps ! 0"
    by simp
  show ?thesis using h3 m h4 c z by blast
qed

text \<open>
  C2 as the specification words it promises that a zero total mass raises no error.
  With no warning listener registered the same placement ends in the
  \<^verbatim>\<open>runtime_error\<close> thrown by \<^verbatim>\<open>warning_listener::warn\<close>.
\<close>

theorem zero_mass_without_listener_counterexample:
  "place_shapes ex_rc [([10], 0)] ex_state0 ex_shape
     = Inr (\<lparr>active_elements = 1, freelist = [], advected_particles = [], rho = [0, 0, 0, 0]\<rparr>,
            \<lparr>m_shape_function = ex_shape, m_elements = [ex_el0_alone]\<rparr>)
   \<and> patch_integral ex_rc [0, 0, 0, 0]
        \<lparr>m_shape_function = ex_shape, m_elements = [ex_el0_alone]\<rparr> = 0
   \<and> add_advective_particle ex_rc False [([10], 0)] ex_ps ex_state0 ex_shape 0
     = Inl (RuntimeError ''warning raised, but no listener registered'')"
  by (simp add: patch_integral_def place_eval ex_el0_alone_def)

end
